theory Spec2Isabelle
  imports Complex_Main "HOL-Library.Log_Nat"
begin

section \<open>The memory game server: data model\<close>

text \<open>
  The repository's \<^verbatim>\<open>gameness/views.py\<close> holds three Django views: the play endpoint
  \<^verbatim>\<open>ContestGameView.post\<close>, the game-start endpoint \<^verbatim>\<open>ContestView\<close> and the highscore
  endpoint \<^verbatim>\<open>ContestHighscoreView\<close>. They are embedded here as functions on an explicit
  database and an explicit session, both passed in and returned. An uncaught Python exception
  is the outcome \<open>Raised\<close>; the database and session returned with it are what was written
  before the exception.
\<close>

datatype error =
  KeyError | MultiValueDictKeyError | JSONDecodeError | IndexError | AttributeError
  | ZeroDivisionError

text \<open>
  The text carried by \<^verbatim>\<open>request.POST["click"]\<close> and by \<^verbatim>\<open>game.hold_card\<close>, by what
  \<^verbatim>\<open>json.loads\<close> makes of it: text it rejects, the empty object \<^verbatim>\<open>{}\<close>, or an object
  with an integer row and column.
\<close>

datatype payload = Malformed | EmptyDict | Click int int

definition json_loads :: "payload \<Rightarrow> error + payload" where
  "json_loads p = (if p = Malformed then Inl JSONDecodeError else Inr p)"

text \<open>A click with its revealed card: \<^verbatim>\<open>{'row': r, 'column': c, 'card': id}\<close>.\<close>

record shown =
  row :: int
  column :: int
  card_id :: int

record turn =
  turn_pk :: int
  turn_game :: int
  meta :: "shown list"
  is_match :: bool
  turn_created :: int

datatype game_type = MEMORY

text \<open>
  Timestamps are microseconds since the epoch (the resolution of Python's \<^verbatim>\<open>datetime\<close>).
  The score (a \<^verbatim>\<open>Decimal\<close>) is a rational; the seconds per turn are a Python float, held as
  the rational that the float denotes. The playfield is the grid that
  \<^verbatim>\<open>json.loads(game.playfield)\<close> yields.
\<close>

record game =
  game_pk :: int
  player :: string
  playfield :: "int list list"
  seed :: string
  kind :: game_type
  active :: bool
  finished :: bool
  score :: rat
  time :: rat
  created :: int
  open_turn :: bool
  hold_card :: payload

record database =
  games :: "game list"
  turns :: "turn list"
  suspected :: "int list"

text \<open>The session keys the views read and write; \<open>None\<close> is an absent key.\<close>

record session =
  s_player :: "string option"
  s_game :: "int option"
  s_game_id :: "string option"
  s_click :: "payload option"
  s_turn :: "int option"

text \<open>Values of a JSON response; \<open>JLazy\<close> is the lazy CSRF token before \<^verbatim>\<open>smart_text\<close>.\<close>

datatype jval = JBool bool | JStr string | JNum rat | JClicks "shown list" | JLazy string

type_synonym jdict = "string \<rightharpoonup> jval"

datatype outcome = Raised error | JsonResponse jdict nat

record request =
  POST_click :: "payload option"
  csrf :: string
  now :: int

section \<open>The object-relational layer\<close>

text \<open>
  \<^verbatim>\<open>Model.save()\<close> of an object whose primary key is set updates the row with that key when
  there is one and inserts a row otherwise.
\<close>

fun upsert :: "('a \<Rightarrow> int) \<Rightarrow> 'a \<Rightarrow> 'a list \<Rightarrow> 'a list" where
  "upsert key x [] = [x]"
| "upsert key x (y # ys) = (if key y = key x then x # ys else y # upsert key x ys)"

definition game_save :: "game \<Rightarrow> database \<Rightarrow> database" where
  "game_save g db = db\<lparr>games := upsert game_pk g (games db)\<rparr>"

definition turn_save :: "turn \<Rightarrow> database \<Rightarrow> database" where
  "turn_save t db = db\<lparr>turns := upsert turn_pk t (turns db)\<rparr>"

text \<open>\<^verbatim>\<open>Game.objects.get(pk=game_id, player=player, active=True, finished=False)\<close>;
  \<open>None\<close> is \<^verbatim>\<open>Game.DoesNotExist\<close>.\<close>

definition Game_get :: "database \<Rightarrow> int \<Rightarrow> string \<Rightarrow> game option" where
  "Game_get db game_id p =
     find (\<lambda>g. game_pk g = game_id \<and> player g = p \<and> active g \<and> \<not> finished g) (games db)"

text \<open>The reverse relation \<^verbatim>\<open>game.turns\<close>, read from the database at each use.\<close>

definition game_turns :: "database \<Rightarrow> game \<Rightarrow> turn list" where
  "game_turns db g = filter (\<lambda>t. turn_game t = game_pk g) (turns db)"

text \<open>\<^verbatim>\<open>QuerySet.last()\<close> of a query without ordering: the row with the largest primary
  key, \<open>None\<close> for an empty query.\<close>

fun qs_last :: "turn list \<Rightarrow> turn option" where
  "qs_last [] = None"
| "qs_last (t # ts) =
     (case qs_last ts of
        None \<Rightarrow> Some t
      | Some u \<Rightarrow> if turn_pk t \<le> turn_pk u then Some u else Some t)"

section \<open>The methods of the Game model\<close>

text \<open>
  Python's indexing \<^verbatim>\<open>xs[i]\<close> of a list: an index from 0 on counts from the start, a
  negative one from the end, and an index outside the list raises \<^verbatim>\<open>IndexError\<close>.
\<close>

definition list_index :: "'a list \<Rightarrow> int \<Rightarrow> error + 'a" where
  "list_index xs i =
     (if 0 \<le> i \<and> i < int (length xs) then Inr (xs ! nat i)
      else if - int (length xs) \<le> i \<and> i < 0 then Inr (xs ! nat (int (length xs) + i))
      else Inl IndexError)"

text \<open>
  Modelled from the spec: \<^verbatim>\<open>Game.get_card_id\<close> of \<^verbatim>\<open>gameness/models.py\<close>, which is not
  among the sources. It is "the revealed card id for that cell": the entry
  \<^verbatim>\<open>playfield[row][column]\<close> of the grid, for a click that has a row and a column.
\<close>

definition get_card_id :: "game \<Rightarrow> payload \<Rightarrow> error + int" where
  "get_card_id g c =
     (case c of
        Click r k \<Rightarrow>
          (case list_index (playfield g) r of
             Inl e \<Rightarrow> Inl e
           | Inr cells \<Rightarrow> list_index cells k)
      | _ \<Rightarrow> Inl KeyError)"

text \<open>
  Modelled from the spec: \<^verbatim>\<open>Game.update_turn\<close> (not among the sources), which records
  the click as pending on the game, or clears it.
\<close>

definition update_turn :: "bool \<Rightarrow> payload \<Rightarrow> game \<Rightarrow> game" where
  "update_turn flag click g = g\<lparr>open_turn := flag, hold_card := click\<rparr>"

text \<open>
  Modelled from the spec: \<^verbatim>\<open>Game.match\<close> (not among the sources): "resolve the pair by
  comparing the underlying card ids at both pending and new coordinates". It returns the two
  clicks with their cards, and the match flag.
\<close>

definition reveal :: "game \<Rightarrow> payload \<Rightarrow> error + shown" where
  "reveal g c =
     (case get_card_id g c of
        Inl e \<Rightarrow> Inl e
      | Inr k \<Rightarrow>
          (case c of
             Click r j \<Rightarrow> Inr \<lparr>row = r, column = j, card_id = k\<rparr>
           | _ \<Rightarrow> Inl KeyError))"

definition match :: "game \<Rightarrow> payload \<Rightarrow> payload \<Rightarrow> error + (shown list \<times> bool)" where
  "match g click1 click2 =
     (case reveal g click1 of
        Inl e \<Rightarrow> Inl e
      | Inr c1 \<Rightarrow>
          (case reveal g click2 of
             Inl e \<Rightarrow> Inl e
           | Inr c2 \<Rightarrow> Inr ([c1, c2], card_id c1 = card_id c2)))"

text \<open>
  Modelled from the spec: \<^verbatim>\<open>Game.end_game\<close> and \<^verbatim>\<open>Game.set_finished\<close> (not among the
  sources): the first records the score and the seconds per turn, the second marks "the game
  finished and inactive".
\<close>

definition end_game :: "rat \<Rightarrow> rat \<Rightarrow> game \<Rightarrow> game" where
  "end_game sc tm g = g\<lparr>score := sc, time := tm\<rparr>"

definition set_finished :: "game \<Rightarrow> game" where
  "set_finished g = g\<lparr>active := False, finished := True\<rparr>"

text \<open>
  The spec does not give the formula of \<^verbatim>\<open>Game.calculate_score\<close> nor the heuristic of
  \<^verbatim>\<open>SuspectedGame.is_game_suspected\<close>; both are parameters of the play endpoint, functions
  of the game and its turns.
\<close>

record model_fns =
  calculate_score :: "game \<Rightarrow> turn list \<Rightarrow> rat"
  suspicious :: "game \<Rightarrow> turn list \<Rightarrow> bool"

definition is_game_suspected :: "model_fns \<Rightarrow> game \<Rightarrow> database \<Rightarrow> database" where
  "is_game_suspected M g db =
     (if suspicious M g (game_turns db g)
      then db\<lparr>suspected := suspected db @ [game_pk g]\<rparr> else db)"

section \<open>The play endpoint\<close>

definition aquire_csrf :: "request \<Rightarrow> jdict" where
  "aquire_csrf req = [''csrf_token'' \<mapsto> JLazy (csrf req)]"

fun smart_text :: "jval \<Rightarrow> jval" where
  "smart_text (JLazy s) = JStr s"
| "smart_text v = v"

text \<open>
  \<^verbatim>\<open>game_completed\<close>: the matched turns are counted, then the pairs are
  \<^verbatim>\<open>len(rows) * len(rows[0]) / 2\<close>, a true division; \<^verbatim>\<open>rows[0]\<close> of an empty grid raises.
\<close>

definition game_completed :: "database \<Rightarrow> game \<Rightarrow> error + bool" where
  "game_completed db g =
     (let matches = length (filter is_match (game_turns db g)) in
      case playfield g of
        [] \<Rightarrow> Inl IndexError
      | r # _ \<Rightarrow>
          Inr (rat_of_nat matches = rat_of_nat (length (playfield g) * length r) / 2))"

text \<open>
  Division of a \<^verbatim>\<open>timedelta\<close> by an integer: the quotient of the microseconds, rounded to
  the nearest microsecond, a tie to the even one.
\<close>

definition divide_and_round :: "int \<Rightarrow> int \<Rightarrow> int" where
  "divide_and_round a b =
     (let q = a div b; r = 2 * (a mod b);
          greater_than_half = (if 0 < b then b < r else r < b)
      in if greater_than_half \<or> (r = b \<and> q mod 2 = 1) then q + 1 else q)"

definition timedelta_div :: "int \<Rightarrow> nat \<Rightarrow> error + int" where
  "timedelta_div d n =
     (if n = 0 then Inl ZeroDivisionError else Inr (divide_and_round d (int n)))"

text \<open>
  \<^verbatim>\<open>timedelta.total_seconds()\<close> is the true division of the microseconds by \<^verbatim>\<open>10**6\<close>.
  The true division of two integers gives the float nearest to the quotient, a tie going to
  the float whose significand is even. \<open>true_divide a b\<close> is that float for a divisor
  \<open>b > 0\<close>: with \<open>e\<close> the exponent of the quotient (the absolute value of the quotient is at
  least \<open>2 powi e\<close> and less than \<open>2 powi (e + 1)\<close>), the quotient is rounded to a
  multiple of \<open>2 powi (e - 52)\<close>, which leaves the 53 significant bits of a double. The
  difference of two \<^verbatim>\<open>datetime\<close>s is zero or between a microsecond and 3.2e11 seconds, far
  inside the range of the normal doubles, so the exponent needs no bound.
\<close>

definition float_exponent :: "int \<Rightarrow> int \<Rightarrow> int" where
  "float_exponent a b =
     (let e = bitlen a - bitlen b
      in if rat_of_int b * 2 powi e \<le> rat_of_int a then e else e - 1)"

definition true_divide :: "int \<Rightarrow> int \<Rightarrow> rat" where
  "true_divide a b =
     (if a = 0 then 0
      else let p = float_exponent \<bar>a\<bar> b - 52;
               m = (if 0 \<le> p then divide_and_round a (b * 2 ^ nat p)
                    else divide_and_round (a * 2 ^ nat (- p)) b)
           in rat_of_int m * 2 powi p)"

definition total_seconds :: "int \<Rightarrow> rat" where
  "total_seconds d = true_divide d 1000000"

text \<open>The final lines of \<^verbatim>\<open>post\<close>: the CSRF token of the context is made text.\<close>

definition finish_response :: "jdict \<Rightarrow> outcome" where
  "finish_response context =
     (case context ''csrf_token'' of
        None \<Rightarrow> JsonResponse context 200
      | Some v \<Rightarrow> JsonResponse (context(''csrf_token'' \<mapsto> smart_text v)) 200)"

text \<open>The first click of a round (lines 85 to 91).\<close>

definition first_click ::
  "request \<Rightarrow> database \<Rightarrow> session \<Rightarrow> game \<Rightarrow> outcome \<times> database \<times> session" where
  "first_click req db sess g =
     (case POST_click req of
        None \<Rightarrow> (Raised MultiValueDictKeyError, db, sess)
      | Some raw \<Rightarrow>
          (case json_loads raw of
             Inl e \<Rightarrow> (Raised e, db, sess)
           | Inr c \<Rightarrow>
               (case get_card_id g c of
                  Inl e \<Rightarrow> (Raised e, db, sess)
                | Inr k \<Rightarrow>
                    (let db' = game_save (update_turn True raw g) db in
                     case c of
                       Click r j \<Rightarrow>
                         (JsonResponse
                            [''success'' \<mapsto> JBool True,
                             ''click'' \<mapsto> JClicks [\<lparr>row = r, column = j, card_id = k\<rparr>]] 200,
                          db', sess)
                     | _ \<Rightarrow> (Raised KeyError, db', sess)))))"

text \<open>The closing of the game (lines 112 to 124), after the round is stored.\<close>

definition close_game ::
  "model_fns \<Rightarrow> jdict \<Rightarrow> database \<Rightarrow> session \<Rightarrow> game \<Rightarrow> outcome \<times> database \<times> session" where
  "close_game M context db sess g =
     (let sess' = sess\<lparr>s_game := None\<rparr>;
          sc = calculate_score M g (game_turns db g)
      in case qs_last (game_turns db g) of
           None \<Rightarrow> (Raised AttributeError, db, sess')
         | Some l \<Rightarrow>
             (case timedelta_div (turn_created l - created g) (length (game_turns db g)) of
                Inl e \<Rightarrow> (Raised e, db, sess')
              | Inr d \<Rightarrow>
                  (let g' = set_finished (end_game sc (total_seconds d) g);
                       db' = is_game_suspected M g' (game_save g' db)
                   in (finish_response
                         (context ++ [''completed'' \<mapsto> JBool True, ''score'' \<mapsto> JNum (score g')]),
                       db', sess'))))"

text \<open>
  The Turn of line 102: its key is \<^verbatim>\<open>request.session.get('turn', game_id*10 + 1)\<close>, and it
  is stamped with the time of the request when it is saved.
\<close>

definition turn_key :: "session \<Rightarrow> int \<Rightarrow> int" where
  "turn_key sess game_id = (case s_turn sess of None \<Rightarrow> game_id * 10 + 1 | Some k \<Rightarrow> k)"

definition new_turn :: "session \<Rightarrow> int \<Rightarrow> game \<Rightarrow> shown list \<times> bool \<Rightarrow> int \<Rightarrow> turn" where
  "new_turn sess game_id g got_match t =
     \<lparr>turn_pk = turn_key sess game_id, turn_game = game_pk g, meta = fst got_match,
      is_match = snd got_match, turn_created = t\<rparr>"

text \<open>The second click of a round (lines 93 to 129).\<close>

definition second_click ::
  "model_fns \<Rightarrow> request \<Rightarrow> jdict \<Rightarrow> database \<Rightarrow> session \<Rightarrow> int \<Rightarrow> game
     \<Rightarrow> outcome \<times> database \<times> session" where
  "second_click M req context db sess game_id g =
     (case json_loads (hold_card g) of
        Inl e \<Rightarrow> (Raised e, db, sess)
      | Inr click1 \<Rightarrow>
          (case POST_click req of
             None \<Rightarrow> (Raised MultiValueDictKeyError, db, sess)
           | Some raw \<Rightarrow>
               (case json_loads raw of
                  Inl e \<Rightarrow> (Raised e, db, sess)
                | Inr click2 \<Rightarrow>
                    (case match g click1 click2 of
                       Inl e \<Rightarrow> (Raised e, db, sess)
                     | Inr got_match \<Rightarrow>
                         (let t = new_turn sess game_id g got_match (now req);
                              db1 = turn_save t db;
                              sess1 = sess\<lparr>s_turn := Some (turn_pk t + 1)\<rparr>;
                              g1 = update_turn False EmptyDict g;
                              db2 = game_save g1 db1;
                              context1 = context ++ [''click'' \<mapsto> JClicks (fst got_match),
                                                     ''match'' \<mapsto> JBool (snd got_match)]
                          in case game_completed db2 g1 of
                               Inl e \<Rightarrow> (Raised e, db2, sess1)
                             | Inr True \<Rightarrow> close_game M context1 db2 sess1 g1
                             | Inr False \<Rightarrow> (finish_response context1, db2, sess1))))))"

text \<open>\<^verbatim>\<open>ContestGameView.post\<close>.\<close>

definition post ::
  "model_fns \<Rightarrow> request \<Rightarrow> database \<Rightarrow> session \<Rightarrow> outcome \<times> database \<times> session" where
  "post M req db sess =
     (case s_game sess of
        None \<Rightarrow> (JsonResponse [''success'' \<mapsto> JBool False] 500, db, sess)
      | Some game_id \<Rightarrow>
          (let context = [''success'' \<mapsto> JBool True] ++ aquire_csrf req in
           case s_player sess of
             None \<Rightarrow> (Raised KeyError, db, sess)
           | Some p \<Rightarrow>
               (case Game_get db game_id p of
                  None \<Rightarrow>
                    (JsonResponse [''success'' \<mapsto> JBool False,
                                   ''msg'' \<mapsto> JStr ''No active game session found.''] 404,
                     db, sess)
                | Some g \<Rightarrow>
                    if \<not> open_turn g then first_click req db sess g
                    else second_click M req context db sess game_id g)))"

section \<open>The game-start endpoint\<close>

text \<open>
  What the views take from the settings and the framework: the pool of player identities,
  the resolution of a static asset's path to its URL, and the playfield generator of the Game
  model (the first component of what \<^verbatim>\<open>Game.generate_play_field\<close> returns), which is not
  among the sources.
\<close>

record env =
  USER_EMAILS :: "string list"
  static :: "string \<Rightarrow> string"
  generate_play_field :: "nat \<Rightarrow> nat \<Rightarrow> string \<Rightarrow> int list list"

text \<open>The inputs of one request to the start endpoint: the index that \<^verbatim>\<open>random.choice\<close>
  draws, the two \<^verbatim>\<open>uuid4().hex\<close> values, the CSRF token and the time.\<close>

record start_request =
  pick :: nat
  uuid_game_id :: string
  uuid_seed :: string
  start_csrf :: string
  start_now :: int

record game_data =
  gd_success :: bool
  gd_name :: string
  best_score :: rat
  rows :: nat
  cols :: nat
  pieces :: "string list"
  backPiece :: string
  font_url :: string
  font_family :: string
  audio_win :: string
  audio_hit :: string
  audio_miss :: string

record start_context =
  ctx_player :: string
  ctx_csrf_token :: string
  ctx_game_data :: game_data
  ctx_game_name :: string

definition choice :: "'a list \<Rightarrow> nat \<Rightarrow> error + 'a" where
  "choice xs i = (if xs = [] then Inl IndexError else Inr (xs ! (i mod length xs)))"

text \<open>The decimal digits of \<^verbatim>\<open>f"{i}"\<close>.\<close>

fun str_nat :: "nat \<Rightarrow> string" where
  "str_nat n =
     (if n < 10 then [char_of (48 + n)]
      else str_nat (n div 10) @ [char_of (48 + n mod 10)])"

declare str_nat.simps [simp del]

text \<open>
  Modelled from the spec: \<^verbatim>\<open>GameManager.stop_active_games_for_player\<close> (not among the
  sources), which "deactivates any other active game for that player".
\<close>

definition stop_active_games_for_player :: "string \<Rightarrow> database \<Rightarrow> database" where
  "stop_active_games_for_player p db =
     db\<lparr>games := map (\<lambda>g. if player g = p \<and> active g then g\<lparr>active := False\<rparr> else g)
                       (games db)\<rparr>"

text \<open>
  \<^verbatim>\<open>Game.objects.create\<close>: the row gets the next key of the sequence (games are never
  deleted, so one more than the largest key) and the time of its creation. Modelled from the
  spec: the fields the call does not give (no score yet, no pending click), which
  \<^verbatim>\<open>gameness/models.py\<close> declares.
\<close>

definition next_pk :: "game list \<Rightarrow> int" where
  "next_pk gs = fold max (map game_pk gs) 0 + 1"

definition Game_create ::
  "string \<Rightarrow> string \<Rightarrow> int list list \<Rightarrow> int \<Rightarrow> database \<Rightarrow> game \<times> database" where
  "Game_create p sd pf t db =
     (let g = \<lparr>game_pk = next_pk (games db), player = p, playfield = pf, seed = sd,
                kind = MEMORY, active = True, finished = False, score = 0, time = 0,
                created = t, open_turn = False, hold_card = EmptyDict\<rparr>
      in (g, db\<lparr>games := games db @ [g]\<rparr>))"

text \<open>
  \<^verbatim>\<open>ContestView.get_game_context\<close>. \<^verbatim>\<open>high_score_game\<close> is the query itself (no row is
  taken from it): it is true when it has a row, and then \<^verbatim>\<open>high_score_game.score\<close> is an
  attribute that a \<^verbatim>\<open>QuerySet\<close> does not have.
\<close>

definition get_game_context ::
  "env \<Rightarrow> database \<Rightarrow> session \<Rightarrow> nat list \<Rightarrow> error + (game_data \<times> string)" where
  "get_game_context E db sess dimensions =
     (case s_player sess of
        None \<Rightarrow> Inl KeyError
      | Some p \<Rightarrow>
          (let high_score_game =
                 sort_key score (filter (\<lambda>g. player g = p \<and> 0 < score g) (games db))
           in case (if high_score_game \<noteq> [] then Inl AttributeError else Inr 0) of
                Inl e \<Rightarrow> Inl e
              | Inr best \<Rightarrow>
                  (case dimensions of
                     r # c # _ \<Rightarrow>
                       Inr (\<lparr>gd_success = True, gd_name = ''Memory'', best_score = best,
                             rows = r, cols = c,
                             pieces = map (\<lambda>i. static E (''img/memory/stack/'' @ str_nat i @ ''.jpg''))
                                          [1..<11],
                             backPiece = static E ''img/memory/card-backside-default.png'',
                             font_url = static E ''games/fonts/press-start-2p.css'',
                             font_family = ''Press Start 2P'',
                             audio_win = static E ''games/sfx/memory-win.wav'',
                             audio_hit = static E ''games/sfx/memory-hit.wav'',
                             audio_miss = static E ''games/sfx/memory-miss.wav''\<rparr>,
                            ''Memory'')
                   | _ \<Rightarrow> Inl IndexError)))"

text \<open>\<^verbatim>\<open>ContestView.get_context_data\<close>.\<close>

definition start ::
  "env \<Rightarrow> start_request \<Rightarrow> database \<Rightarrow> session
     \<Rightarrow> (error + start_context) \<times> database \<times> session" where
  "start E req db sess =
     (case choice (USER_EMAILS E) (pick req) of
        Inl e \<Rightarrow> (Inl e, db, sess)
      | Inr p \<Rightarrow>
          (let sess1 = sess\<lparr>s_player := Some p, s_game_id := Some (uuid_game_id req)\<rparr>;
               db1 = stop_active_games_for_player p db;
               sess2 = sess1\<lparr>s_game := None\<rparr>;
               sess3 = sess2\<lparr>s_click := None\<rparr>;
               dimensions = [2, 3];
               (g, db2) = Game_create p (uuid_seed req)
                            (generate_play_field E (dimensions ! 0) (dimensions ! 1) (uuid_seed req))
                            (start_now req) db1;
               sess4 = sess3\<lparr>s_game := Some (game_pk g)\<rparr>
           in case get_game_context E db2 sess4 dimensions of
                Inl e \<Rightarrow> (Inl e, db2, sess4)
              | Inr (gd, name) \<Rightarrow>
                  (Inr \<lparr>ctx_player = p, ctx_csrf_token = start_csrf req,
                        ctx_game_data = gd, ctx_game_name = name\<rparr>,
                   db2, sess4)))"

section \<open>The highscore endpoint\<close>

text \<open>The three queries of the Game manager that the view calls; the manager is not among
  the sources, and the view only passes their results on.\<close>

record 'a manager =
  get_player_best_score :: "database \<Rightarrow> string \<Rightarrow> rat"
  get_highscores :: "database \<Rightarrow> game list"
  get_unique_highscores :: "database \<Rightarrow> game list \<times> 'a"

record highscore_context =
  hs_player :: string
  hs_best_score :: rat
  highscores :: "game list"
  unique_highscores :: "game list"

text \<open>\<^verbatim>\<open>ContestHighscoreView.get_context_data\<close>; the slice \<^verbatim>\<open>[:5]\<close> of the pair that
  \<^verbatim>\<open>get_unique_highscores\<close> returns is the pair.\<close>

definition highscore_get_context_data ::
  "'a manager \<Rightarrow> database \<Rightarrow> session \<Rightarrow> error + highscore_context" where
  "highscore_get_context_data Q db sess =
     (case s_player sess of
        None \<Rightarrow> Inl KeyError
      | Some p \<Rightarrow>
          Inr \<lparr>hs_player = p, hs_best_score = get_player_best_score Q db p,
               highscores = take 5 (get_highscores Q db),
               unique_highscores = fst (get_unique_highscores Q db)\<rparr>)"

section \<open>Notions used in the statements\<close>

text \<open>A click that names a cell of the game's playfield: it has a row and a column, the
  row is one of the grid's rows and the column one of that row's cells, both counted from 0.\<close>

definition on_cell :: "game \<Rightarrow> payload \<Rightarrow> bool" where
  "on_cell g c =
     (case c of
        Click r k \<Rightarrow>
          0 \<le> r \<and> r < int (length (playfield g))
          \<and> 0 \<le> k \<and> k < int (length (playfield g ! nat r))
      | _ \<Rightarrow> False)"

text \<open>The number of the game's turns whose match flag is true, as \<open>game_completed\<close>
  counts them.\<close>

definition matched_turns :: "database \<Rightarrow> game \<Rightarrow> nat" where
  "matched_turns db g = length (filter is_match (game_turns db g))"

text \<open>The row of a game in the table, by its key.\<close>

definition game_row :: "database \<Rightarrow> int \<Rightarrow> game option" where
  "game_row db k = find (\<lambda>g. game_pk g = k) (games db)"

text \<open>Primary keys are unique in both tables.\<close>

definition unique_keys :: "database \<Rightarrow> bool" where
  "unique_keys db = (distinct (map game_pk (games db)) \<and> distinct (map turn_pk (turns db)))"

text \<open>The active, unfinished games of a player, and the invariant that no player has more
  than one.\<close>

definition live_games :: "database \<Rightarrow> string \<Rightarrow> game list" where
  "live_games db p = filter (\<lambda>g. player g = p \<and> active g \<and> \<not> finished g) (games db)"

definition one_live_game :: "database \<Rightarrow> bool" where
  "one_live_game db = list_all (\<lambda>g. length (live_games db (player g)) \<le> 1) (games db)"

text \<open>The database once a round is stored (lines 102 to 108): the Turn of the two revealed
  clicks is saved, and the game with its pending click cleared.\<close>

definition round_db ::
  "session \<Rightarrow> int \<Rightarrow> game \<Rightarrow> shown \<Rightarrow> shown \<Rightarrow> int \<Rightarrow> database \<Rightarrow> database" where
  "round_db sess gid g s1 s2 t db =
     game_save (update_turn False EmptyDict g)
       (turn_save (new_turn sess gid g ([s1, s2], card_id s1 = card_id s2) t) db)"

text \<open>The game as the closing branch saves it, \<open>l\<close> being the last of its turns.\<close>

definition final_game :: "model_fns \<Rightarrow> database \<Rightarrow> game \<Rightarrow> turn \<Rightarrow> game" where
  "final_game M db g l =
     set_finished
       (end_game (calculate_score M g (game_turns db g))
          (total_seconds
             (divide_and_round (turn_created l - created g) (int (length (game_turns db g)))))
          g)"

text \<open>The score and the seconds per turn of \<open>g'\<close> are those the closing branch computes
  for the game \<open>g\<close> it fetched (lines 115 and 116), \<open>db'\<close> being the database the request
  leaves: the score is \<^verbatim>\<open>calculate_score\<close> of the game with its round stored, and the seconds
  per turn are \<^verbatim>\<open>total_seconds\<close> of the time from the creation of the game to its last turn,
  divided by the number of its turns.\<close>

definition computed_at_completion :: "model_fns \<Rightarrow> database \<Rightarrow> game \<Rightarrow> game \<Rightarrow> bool" where
  "computed_at_completion M db' g g' =
     (case qs_last (game_turns db' g) of
        None \<Rightarrow> False
      | Some l \<Rightarrow>
          score g' = calculate_score M (update_turn False EmptyDict g) (game_turns db' g)
          \<and> time g' = total_seconds
                (divide_and_round (turn_created l - created g)
                   (int (length (game_turns db' g)))))"

text \<open>Requests to the play endpoint from any sessions, one after the other; only the
  database is carried on, each request coming with the session it is made in.\<close>

fun posts :: "model_fns \<Rightarrow> (request \<times> session) list \<Rightarrow> database \<Rightarrow> database" where
  "posts M [] db = db"
| "posts M ((req, sess) # rs) db = posts M rs (fst (snd (post M req db sess)))"

text \<open>A sequence of requests to the play endpoint, each on the database and session the
  one before left.\<close>

fun play ::
  "model_fns \<Rightarrow> request list \<Rightarrow> database \<Rightarrow> session \<Rightarrow> outcome list \<times> database \<times> session" where
  "play M [] db sess = ([], db, sess)"
| "play M (r # rs) db sess =
     (case post M r db sess of
        (out, db', sess') \<Rightarrow>
          (case play M rs db' sess' of (outs, dbf, sessf) \<Rightarrow> (out # outs, dbf, sessf)))"

text \<open>What the play endpoint may save in place of the game \<open>g\<close>: the same key and player,
  and either the score, the time and both flags as they were, or a finished, inactive game.\<close>

definition advanced :: "game \<Rightarrow> game \<Rightarrow> bool" where
  "advanced g g' =
     (game_pk g' = game_pk g \<and> player g' = player g
      \<and> ((score g' = score g \<and> time g' = time g \<and> active g' = active g
           \<and> finished g' = finished g)
          \<or> (finished g' \<and> \<not> active g')))"


text \<open>Requests to both endpoints, from any sessions and in any order, on the database the
  one before left; and the database with no rows.\<close>

datatype event = StartRequest env start_request session | PlayRequest model_fns request session

fun run :: "event list \<Rightarrow> database \<Rightarrow> database" where
  "run [] db = db"
| "run (StartRequest E req sess # evs) db = run evs (fst (snd (start E req db sess)))"
| "run (PlayRequest M req sess # evs) db = run evs (fst (snd (post M req db sess)))"

definition empty_db :: database where
  "empty_db = \<lparr>games = [], turns = [], suspected = []\<rparr>"


section \<open>Scenarios\<close>

text \<open>A fresh game on a 2 by 3 playfield, as the start endpoint creates it, with the session
  that is bound to it.\<close>

definition ex_game :: game where
  "ex_game = \<lparr>game_pk = 1, player = ''ann'', playfield = [[1, 2, 3], [1, 2, 3]], seed = ''s1'',
     kind = MEMORY, active = True, finished = False, score = 0, time = 0, created = 0,
     open_turn = False, hold_card = EmptyDict\<rparr>"

definition ex_db :: database where
  "ex_db = \<lparr>games = [ex_game], turns = [], suspected = []\<rparr>"

definition ex_sess :: session where
  "ex_sess = \<lparr>s_player = Some ''ann'', s_game = Some 1, s_game_id = Some ''u1'',
     s_click = None, s_turn = None\<rparr>"

definition ex_M :: model_fns where
  "ex_M = \<lparr>calculate_score = (\<lambda>g ts. rat_of_nat (length (filter is_match ts))),
     suspicious = (\<lambda>g ts. False)\<rparr>"

definition click :: "int \<Rightarrow> int \<Rightarrow> int \<Rightarrow> request" where
  "click r k t = \<lparr>POST_click = Some (Click r k), csrf = ''tok'', now = t\<rparr>"

definition no_click :: request where
  "no_click = \<lparr>POST_click = None, csrf = ''tok'', now = 5\<rparr>"

text \<open>The same game after two matched rounds and the first click of a third: the three
  turns of the game, the database and the session before the last click, and the database
  after it. The seconds per turn of the finished game are the float \<^verbatim>\<open>0.333334\<close>, which is
  1501202878189917 / 4503599627370496 (the divisor is 2 to the power 52).\<close>

definition ex_turn1 :: turn where
  "ex_turn1 = \<lparr>turn_pk = 11, turn_game = 1,
     meta = [\<lparr>row = 0, column = 0, card_id = 1\<rparr>, \<lparr>row = 1, column = 0, card_id = 1\<rparr>],
     is_match = True, turn_created = 20\<rparr>"

definition ex_turn2 :: turn where
  "ex_turn2 = \<lparr>turn_pk = 12, turn_game = 1,
     meta = [\<lparr>row = 0, column = 1, card_id = 2\<rparr>, \<lparr>row = 1, column = 1, card_id = 2\<rparr>],
     is_match = True, turn_created = 40\<rparr>"

definition ex_turn3 :: turn where
  "ex_turn3 = \<lparr>turn_pk = 13, turn_game = 1,
     meta = [\<lparr>row = 0, column = 2, card_id = 3\<rparr>, \<lparr>row = 1, column = 2, card_id = 3\<rparr>],
     is_match = True, turn_created = 1000001\<rparr>"

definition ex_db5 :: database where
  "ex_db5 = \<lparr>games = [ex_game\<lparr>open_turn := True, hold_card := Click 0 2\<rparr>],
     turns = [ex_turn1, ex_turn2], suspected = []\<rparr>"

definition ex_sess5 :: session where
  "ex_sess5 = ex_sess\<lparr>s_turn := Some 13\<rparr>"

definition ex_db6 :: database where
  "ex_db6 = \<lparr>games = [ex_game\<lparr>active := False, finished := True, score := 3,
                               time := 1501202878189917 / 4503599627370496\<rparr>],
     turns = [ex_turn1, ex_turn2, ex_turn3], suspected = []\<rparr>"


text \<open>The games of that scenario before and after the last click, a configuration of the
  start endpoint with one player in the pool, a request to it, and a session with no key.\<close>

definition ex_game5 :: game where
  "ex_game5 = ex_game\<lparr>open_turn := True, hold_card := Click 0 2\<rparr>"

definition ex_game6 :: game where
  "ex_game6 = ex_game\<lparr>active := False, finished := True, score := 3,
                       time := 1501202878189917 / 4503599627370496\<rparr>"

definition ex_env :: env where
  "ex_env = \<lparr>USER_EMAILS = [''ann''], static = (\<lambda>p. ''/static/'' @ p),
     generate_play_field = (\<lambda>r c sd. [[1, 2, 3], [1, 2, 3]])\<rparr>"

definition ex_start :: start_request where
  "ex_start = \<lparr>pick = 0, uuid_game_id = ''u2'', uuid_seed = ''s2'', start_csrf = ''tok'',
     start_now = 2000000\<rparr>"

definition no_session :: session where
  "no_session = \<lparr>s_player = None, s_game = None, s_game_id = None, s_click = None,
     s_turn = None\<rparr>"


text \<open>Two games in two sessions. Ann plays eleven rounds without a match on game 1; Bob
  then plays one round on game 2 in a session that has no turn counter yet.\<close>

definition ex_game_b :: game where
  "ex_game_b = ex_game\<lparr>game_pk := 2, player := ''bob''\<rparr>"

definition ex_sess_b :: session where
  "ex_sess_b = \<lparr>s_player = Some ''bob'', s_game = Some 2, s_game_id = Some ''u2'',
     s_click = None, s_turn = None\<rparr>"

definition ex_db2 :: database where
  "ex_db2 = \<lparr>games = [ex_game, ex_game_b], turns = [], suspected = []\<rparr>"

definition ex_miss :: "int \<Rightarrow> turn" where
  "ex_miss i = \<lparr>turn_pk = 10 + i, turn_game = 1,
     meta = [\<lparr>row = 0, column = 0, card_id = 1\<rparr>, \<lparr>row = 0, column = 1, card_id = 2\<rparr>],
     is_match = False, turn_created = 100 * i + 50\<rparr>"

definition ann_rounds :: "request list" where
  "ann_rounds = concat (map (\<lambda>i. [click 0 0 (100 * i), click 0 1 (100 * i + 50)]) [1..11])"

definition ex_db_a :: database where
  "ex_db_a = \<lparr>games = [ex_game, ex_game_b], turns = map ex_miss [1..11], suspected = []\<rparr>"

definition ex_db_b1 :: database where
  "ex_db_b1 = \<lparr>games = [ex_game, ex_game_b\<lparr>open_turn := True, hold_card := Click 0 0\<rparr>],
     turns = map ex_miss [1..11], suspected = []\<rparr>"

definition ex_turn_b :: turn where
  "ex_turn_b = \<lparr>turn_pk = 21, turn_game = 2,
     meta = [\<lparr>row = 0, column = 0, card_id = 1\<rparr>, \<lparr>row = 1, column = 0, card_id = 1\<rparr>],
     is_match = True, turn_created = 5050\<rparr>"

definition ex_db_b2 :: database where
  "ex_db_b2 = \<lparr>games = [ex_game, ex_game_b],
     turns = map ex_miss [1..10] @ [ex_turn_b], suspected = []\<rparr>"


section \<open>Facts about the tables\<close>

lemma qs_last_None: "(qs_last ts = None) = (ts = [])"
  by (cases ts) (auto split: option.splits)

lemma upsert_mem: "x \<in> set (upsert key x xs)"
  by (induction xs) auto

lemma upsert_find: "find (\<lambda>y. key y = key x) (upsert key x xs) = Some x"
  by (induction xs) auto

lemma upsert_keys:
  "map key (upsert key x xs) =
     (if key x \<in> set (map key xs) then map key xs else map key xs @ [key x])"
  by (induction xs) auto

lemma upsert_length:
  "length (upsert key x xs) = (if key x \<in> set (map key xs) then length xs else Suc (length xs))"
  by (induction xs) auto

lemma upsert_upsert: "key x = key y \<Longrightarrow> upsert key y (upsert key x xs) = upsert key y xs"
  by (induction xs) auto

lemma turns_game_save [simp]: "turns (game_save g db) = turns db"
  by (simp add: game_save_def)

lemma games_turn_save [simp]: "games (turn_save t db) = games db"
  by (simp add: turn_save_def)

lemma game_turns_game_save [simp]: "game_turns (game_save g db) h = game_turns db h"
  by (simp add: game_turns_def)

lemma turns_is_game_suspected [simp]: "turns (is_game_suspected M g db) = turns db"
  by (simp add: is_game_suspected_def)

lemma games_is_game_suspected [simp]: "games (is_game_suspected M g db) = games db"
  by (simp add: is_game_suspected_def)

lemma game_pk_update_turn [simp]: "game_pk (update_turn f c g) = game_pk g"
  by (simp add: update_turn_def)

lemma playfield_update_turn [simp]: "playfield (update_turn f c g) = playfield g"
  by (simp add: update_turn_def)

lemma game_turns_saved_turn:
  "turn_game t = game_pk g \<Longrightarrow> t \<in> set (game_turns (turn_save t db) g)"
  by (simp add: game_turns_def turn_save_def upsert_mem)

section \<open>Facts about the play endpoint\<close>

lemma on_cell_card:
  "on_cell g c \<Longrightarrow> \<exists>r k. c = Click r k \<and> get_card_id g c = Inr (playfield g ! nat r ! nat k)"
  by (cases c) (simp_all add: on_cell_def get_card_id_def list_index_def)

lemma on_cell_playfield: "on_cell g c \<Longrightarrow> playfield g \<noteq> []"
  by (cases c) (auto simp: on_cell_def)

lemma on_cell_reveal: "on_cell g c \<Longrightarrow> \<exists>s. reveal g c = Inr s"
  using on_cell_card [of g c] by (auto simp: reveal_def)

lemma reveal_Inr:
  assumes "reveal g c = Inr s"
  shows "json_loads c = Inr c" and "playfield g \<noteq> []"
  using assms
  by (auto simp: reveal_def get_card_id_def list_index_def json_loads_def
      split: payload.splits sum.splits if_splits)

lemma finish_response_200:
  "context ''success'' = Some (JBool True) \<Longrightarrow>
   \<exists>body. finish_response context = JsonResponse body 200 \<and> body ''success'' = Some (JBool True)"
  by (auto simp: finish_response_def split: option.splits)

lemma first_click_on_cell:
  "on_cell g c \<Longrightarrow> POST_click req = Some c \<Longrightarrow>
   \<exists>body. fst (first_click req db sess g) = JsonResponse body 200
      \<and> body ''success'' = Some (JBool True)"
  using on_cell_card [of g c] by (auto simp: first_click_def json_loads_def Let_def)

lemma first_click_no_click:
  "POST_click req = None \<Longrightarrow> fst (first_click req db sess g) = Raised MultiValueDictKeyError"
  by (simp add: first_click_def)

lemma first_click_malformed:
  "POST_click req = Some Malformed \<Longrightarrow> fst (first_click req db sess g) = Raised JSONDecodeError"
  by (simp add: first_click_def json_loads_def)

lemma second_click_no_click:
  "POST_click req = None \<Longrightarrow>
   fst (second_click M req context db sess gid g)
     = Raised (if hold_card g = Malformed then JSONDecodeError else MultiValueDictKeyError)"
  by (simp add: second_click_def json_loads_def)

lemma second_click_malformed:
  "POST_click req = Some Malformed \<Longrightarrow>
   fst (second_click M req context db sess gid g) = Raised JSONDecodeError"
  by (simp add: second_click_def json_loads_def)

lemma close_game_ok:
  assumes "game_turns db g \<noteq> []" and "context ''success'' = Some (JBool True)"
  shows "\<exists>body. fst (close_game M context db sess g) = JsonResponse body 200
            \<and> body ''success'' = Some (JBool True)"
proof -
  obtain l where l: "qs_last (game_turns db g) = Some l"
    using assms(1) qs_last_None [of "game_turns db g"]
    by (cases "qs_last (game_turns db g)") auto
  have n: "length (game_turns db g) \<noteq> 0"
    using assms(1) by simp
  have c: "(context ++ [''completed'' \<mapsto> JBool True, ''score'' \<mapsto> JNum x]) ''success''
             = Some (JBool True)" for x
    using assms(2) by (simp add: map_add_def)
  show ?thesis
    using l n
      finish_response_200
        [of "context ++ [''completed'' \<mapsto> JBool True, ''score'' \<mapsto> JNum x]" for x, OF c]
    by (simp add: close_game_def timedelta_div_def Let_def)
qed

lemma game_completed_ok: "playfield g \<noteq> [] \<Longrightarrow> \<exists>b. game_completed db g = Inr b"
  by (cases "playfield g") (auto simp: game_completed_def Let_def)

text \<open>The second click, once both clicks are revealed: the round is stored, and the game is
  closed or not as \<open>game_completed\<close> says.\<close>

lemma second_click_resolved:
  assumes "reveal g (hold_card g) = Inr s1" and "POST_click req = Some c"
    and "reveal g c = Inr s2"
    and "game_completed
           (game_save (update_turn False EmptyDict g)
              (turn_save (new_turn sess gid g ([s1, s2], card_id s1 = card_id s2) (now req)) db))
           (update_turn False EmptyDict g) = Inr b"
  shows "second_click M req context db sess gid g =
     (if b
      then close_game M
             (context ++ [''click'' \<mapsto> JClicks [s1, s2],
                          ''match'' \<mapsto> JBool (card_id s1 = card_id s2)])
             (game_save (update_turn False EmptyDict g)
                (turn_save (new_turn sess gid g ([s1, s2], card_id s1 = card_id s2) (now req)) db))
             (sess\<lparr>s_turn := Some (turn_key sess gid + 1)\<rparr>)
             (update_turn False EmptyDict g)
      else (finish_response
              (context ++ [''click'' \<mapsto> JClicks [s1, s2],
                           ''match'' \<mapsto> JBool (card_id s1 = card_id s2)]),
            game_save (update_turn False EmptyDict g)
              (turn_save (new_turn sess gid g ([s1, s2], card_id s1 = card_id s2) (now req)) db),
            sess\<lparr>s_turn := Some (turn_key sess gid + 1)\<rparr>))"
proof -
  have j1: "json_loads (hold_card g) = Inr (hold_card g)"
    by (rule reveal_Inr(1) [OF assms(1)])
  have j2: "json_loads c = Inr c"
    by (rule reveal_Inr(1) [OF assms(3)])
  have m: "match g (hold_card g) c = Inr ([s1, s2], card_id s1 = card_id s2)"
    by (simp add: match_def assms(1,3))
  have k: "turn_pk (new_turn sess gid g gm t) = turn_key sess gid" for gm t
    by (simp add: new_turn_def)
  show ?thesis
    using assms(4)
    by (cases b) (simp_all add: second_click_def j1 j2 m assms(2) Let_def k)
qed

lemma second_click_on_cell:
  assumes "on_cell g (hold_card g)" and "POST_click req = Some c" and "on_cell g c"
    and "context ''success'' = Some (JBool True)"
  shows "\<exists>body. fst (second_click M req context db sess gid g) = JsonResponse body 200
            \<and> body ''success'' = Some (JBool True)"
proof -
  obtain s1 where s1: "reveal g (hold_card g) = Inr s1"
    using on_cell_reveal [OF assms(1)] by blast
  obtain s2 where s2: "reveal g c = Inr s2"
    using on_cell_reveal [OF assms(3)] by blast
  define t where "t = new_turn sess gid g ([s1, s2], card_id s1 = card_id s2) (now req)"
  define g1 where "g1 = update_turn False EmptyDict g"
  define db2 where "db2 = game_save g1 (turn_save t db)"
  define context1 where "context1 = context ++ [''click'' \<mapsto> JClicks [s1, s2],
       ''match'' \<mapsto> JBool (card_id s1 = card_id s2)]"
  have pf: "playfield g1 \<noteq> []"
    using on_cell_playfield [OF assms(3)] by (simp add: g1_def)
  obtain b where b: "game_completed db2 g1 = Inr b"
    using game_completed_ok [OF pf] by blast
  have ne: "game_turns db2 g1 \<noteq> []"
    using game_turns_saved_turn [of t g1 db] by (auto simp: db2_def t_def g1_def new_turn_def)
  have c1: "context1 ''success'' = Some (JBool True)"
    using assms(4) by (simp add: context1_def map_add_def)
  have eq: "second_click M req context db sess gid g =
      (if b then close_game M context1 db2 (sess\<lparr>s_turn := Some (turn_key sess gid + 1)\<rparr>) g1
       else (finish_response context1, db2, sess\<lparr>s_turn := Some (turn_key sess gid + 1)\<rparr>))"
    using second_click_resolved [OF s1 assms(2) s2 b [unfolded db2_def g1_def t_def]]
    by (simp add: db2_def g1_def t_def context1_def)
  show ?thesis
    using close_game_ok [of db2 g1 context1, OF ne c1] finish_response_200 [of context1, OF c1]
    by (simp add: eq)
qed

lemma post_found:
  assumes "s_game sess = Some gid" and "s_player sess = Some p" and "Game_get db gid p = Some g"
  shows "post M req db sess =
     (if \<not> open_turn g then first_click req db sess g
      else second_click M req ([''success'' \<mapsto> JBool True] ++ aquire_csrf req) db sess gid g)"
  by (simp add: post_def assms)

section \<open>The outcomes of the play endpoint\<close>

text \<open>
  Claim C3, as amended. The play endpoint answers HTTP 500 with \<^verbatim>\<open>{success: false}\<close> when
  no game id is bound to the session, and HTTP 404 with \<^verbatim>\<open>{success: false, msg}\<close> when a
  game id and a player are bound and no active, unfinished game of that player has that id.
  When the game is found and the request carries a click on a cell of the playfield (the
  pending click, if there is one, being on a cell too), it answers HTTP 200 with
  \<^verbatim>\<open>success: true\<close>. These are not all the cases: the view raises an exception that it does
  not catch when a game id is bound without a player (line 72), when the request carries no
  click (\<^verbatim>\<open>request.POST["click"]\<close>, lines 86 and 95) and when the click is not JSON
  (\<^verbatim>\<open>json.loads\<close>, lines 86, 94 and 95).
\<close>

theorem post_outcomes:
  "case s_game sess of
     None \<Rightarrow> fst (post M req db sess) = JsonResponse [''success'' \<mapsto> JBool False] 500
   | Some gid \<Rightarrow>
       (case s_player sess of
          None \<Rightarrow> fst (post M req db sess) = Raised KeyError
        | Some p \<Rightarrow>
            (case Game_get db gid p of
               None \<Rightarrow>
                 fst (post M req db sess) =
                   JsonResponse [''success'' \<mapsto> JBool False,
                                 ''msg'' \<mapsto> JStr ''No active game session found.''] 404
             | Some g \<Rightarrow>
                 (case POST_click req of
                    None \<Rightarrow>
                      fst (post M req db sess) =
                        Raised (if open_turn g \<and> hold_card g = Malformed then JSONDecodeError
                                else MultiValueDictKeyError)
                  | Some c \<Rightarrow>
                      (c = Malformed \<longrightarrow> fst (post M req db sess) = Raised JSONDecodeError)
                      \<and> (on_cell g c \<and> (open_turn g \<longrightarrow> on_cell g (hold_card g)) \<longrightarrow>
                           (\<exists>body. fst (post M req db sess) = JsonResponse body 200
                              \<and> body ''success'' = Some (JBool True))))))"
proof (cases "s_game sess")
  case None
  then show ?thesis by (simp add: post_def)
next
  case (Some gid)
  note gid = this
  show ?thesis
  proof (cases "s_player sess")
    case None
    then show ?thesis by (simp add: post_def gid)
  next
    case (Some p)
    note p = this
    show ?thesis
    proof (cases "Game_get db gid p")
      case None
      then show ?thesis by (simp add: post_def gid p)
    next
      case (Some g)
      have ctx: "([''success'' \<mapsto> JBool True] ++ aquire_csrf req) ''success'' = Some (JBool True)"
        by (simp add: aquire_csrf_def map_add_def)
      note post_eq = post_found [OF gid p Some]
      show ?thesis
      proof (cases "POST_click req")
        case None
        then show ?thesis
          using first_click_no_click [OF None] second_click_no_click [OF None]
          by (simp add: gid p Some post_eq)
      next
        case c: (Some c)
        have bad: "fst (post M req db sess) = Raised JSONDecodeError" if "c = Malformed"
          using that c first_click_malformed [of req] second_click_malformed [of req]
          by (simp add: post_eq)
        have good: "\<exists>body. fst (post M req db sess) = JsonResponse body 200
                              \<and> body ''success'' = Some (JBool True)"
          if "on_cell g c" and "open_turn g \<longrightarrow> on_cell g (hold_card g)"
        proof (cases "open_turn g")
          case False
          then show ?thesis
            using first_click_on_cell [OF that(1) c] by (simp add: post_eq)
        next
          case True
          then have h: "on_cell g (hold_card g)" using that(2) by simp
          show ?thesis
            using True
              second_click_on_cell
                [of g req c "[''success'' \<mapsto> JBool True] ++ aquire_csrf req" M db sess gid,
                 OF h c that(1) ctx]
            by (simp add: post_eq)
        qed
        show ?thesis
          using bad good by (simp add: gid p Some c)
      qed
    qed
  qed
qed

lemma ex_game_found: "Game_get ex_db 1 ''ann'' = Some ex_game"
  by (simp add: Game_get_def ex_db_def ex_game_def)

theorem post_outcomes_witness:
  "\<exists>body. fst (post ex_M (click 0 0 10) ex_db ex_sess) = JsonResponse body 200
     \<and> body ''success'' = Some (JBool True)"
proof -
  have a: "s_game ex_sess = Some 1" and b: "s_player ex_sess = Some ''ann''"
    by (simp_all add: ex_sess_def)
  have c: "POST_click (click 0 0 10) = Some (Click 0 0)"
    by (simp add: click_def)
  have d: "on_cell ex_game (Click 0 0)" and o: "\<not> open_turn ex_game"
    by (simp_all add: on_cell_def ex_game_def)
  show ?thesis
    using post_outcomes [where sess = ex_sess and M = ex_M and req = "click 0 0 10" and db = ex_db]
    by (simp add: a b c d o ex_game_found)
qed

text \<open>
  Claim C3 as the spec states it ("in every other case it returns a success response with
  HTTP 200") fails on a request that carries no click: the game is found, and the view raises.
\<close>

theorem post_without_click_counterexample:
  "s_game ex_sess = Some 1 \<and> s_player ex_sess = Some ''ann''
   \<and> Game_get ex_db 1 ''ann'' = Some ex_game
   \<and> fst (post ex_M no_click ex_db ex_sess) = Raised MultiValueDictKeyError"
  by (simp add: ex_game_found)
     (simp add: post_def ex_sess_def ex_game_found first_click_def no_click_def ex_game_def)

section \<open>The highscore endpoint without a player\<close>

text \<open>
  Claim C10. On a session that holds no player identity the highscore view raises
  \<^verbatim>\<open>KeyError\<close>, for every database and whatever the manager's queries return: it gives no
  handled response.
\<close>

theorem highscore_without_player:
  "s_player sess = None \<Longrightarrow> highscore_get_context_data Q db sess = Inl KeyError"
  by (simp add: highscore_get_context_data_def)

theorem highscore_without_player_witness:
  "highscore_get_context_data
     \<lparr>get_player_best_score = (\<lambda>db p. 0), get_highscores = games,
      get_unique_highscores = (\<lambda>db. (games db, ()))\<rparr>
     ex_db (ex_sess\<lparr>s_player := None\<rparr>) = Inl KeyError"
  using highscore_without_player
    [where sess = "ex_sess\<lparr>s_player := None\<rparr>" and db = ex_db
       and Q = "\<lparr>get_player_best_score = (\<lambda>db p. 0), get_highscores = games,
                 get_unique_highscores = (\<lambda>db. (games db, ()))\<rparr>"]
  by simp

section \<open>What an answered click does\<close>

lemma close_game_eq:
  assumes "qs_last (game_turns db g) = Some l"
  shows "close_game M context db sess g =
     (finish_response
        (context ++ [''completed'' \<mapsto> JBool True,
           ''score'' \<mapsto> JNum (score (final_game M db g l))]),
      is_game_suspected M (final_game M db g l) (game_save (final_game M db g l) db),
      sess\<lparr>s_game := None\<rparr>)"
proof -
  have "game_turns db g \<noteq> []"
    using assms qs_last_None [of "game_turns db g"] by auto
  then have n: "length (game_turns db g) \<noteq> 0" by simp
  show ?thesis
    using assms n
    by (simp add: close_game_def timedelta_div_def Let_def final_game_def)
qed

lemma match_Inr:
  "match g c1 c2 = Inr gm \<Longrightarrow>
   \<exists>s1 s2. reveal g c1 = Inr s1 \<and> reveal g c2 = Inr s2 \<and> gm = ([s1, s2], card_id s1 = card_id s2)"
  by (auto simp: match_def split: sum.splits)

lemma second_click_response:
  assumes "fst (second_click M req context db sess gid g) = JsonResponse body st"
  shows "\<exists>s1 s2 c b. reveal g (hold_card g) = Inr s1 \<and> POST_click req = Some c
           \<and> reveal g c = Inr s2
           \<and> game_completed
               (game_save (update_turn False EmptyDict g)
                  (turn_save (new_turn sess gid g ([s1, s2], card_id s1 = card_id s2) (now req)) db))
               (update_turn False EmptyDict g) = Inr b"
proof -
  obtain c1 where c1: "json_loads (hold_card g) = Inr c1"
    using assms by (cases "json_loads (hold_card g)") (auto simp: second_click_def)
  then have c1': "c1 = hold_card g" by (auto simp: json_loads_def split: if_splits)
  obtain c where c: "POST_click req = Some c"
    using assms c1 by (cases "POST_click req") (auto simp: second_click_def)
  obtain c2 where c2: "json_loads c = Inr c2"
    using assms c1 c by (cases "json_loads c") (auto simp: second_click_def)
  then have c2': "c2 = c" by (auto simp: json_loads_def split: if_splits)
  obtain gm where gm: "match g c1 c2 = Inr gm"
    using assms c1 c c2 by (cases "match g c1 c2") (auto simp: second_click_def)
  obtain s1 s2 where s: "reveal g (hold_card g) = Inr s1" "reveal g c = Inr s2"
    "gm = ([s1, s2], card_id s1 = card_id s2)"
    using match_Inr [OF gm] c1' c2' by auto
  have pf: "playfield (update_turn False EmptyDict g) \<noteq> []"
    using reveal_Inr(2) [OF s(2)] by simp
  obtain b where "game_completed
               (game_save (update_turn False EmptyDict g)
                  (turn_save (new_turn sess gid g ([s1, s2], card_id s1 = card_id s2) (now req)) db))
               (update_turn False EmptyDict g) = Inr b"
    using game_completed_ok [OF pf] by blast
  then show ?thesis using s c by blast
qed

lemma finish_response_body:
  assumes "finish_response ctx = JsonResponse body st"
  shows "st = 200" and "k \<noteq> ''csrf_token'' \<Longrightarrow> body k = ctx k"
    and "body ''csrf_token'' = map_option smart_text (ctx ''csrf_token'')"
  using assms by (auto simp: finish_response_def split: option.splits)

lemma turns_round_db [simp]:
  "turns (round_db sess gid g s1 s2 t db) =
     upsert turn_pk (new_turn sess gid g ([s1, s2], card_id s1 = card_id s2) t) (turns db)"
  by (simp add: round_db_def turn_save_def)

lemma games_round_db [simp]:
  "games (round_db sess gid g s1 s2 t db) = upsert game_pk (update_turn False EmptyDict g) (games db)"
  by (simp add: round_db_def game_save_def)

lemma game_turns_pk: "game_pk h = game_pk g \<Longrightarrow> game_turns db h = game_turns db g"
  by (simp add: game_turns_def)

lemma game_turns_round_db_nonempty:
  "game_turns (round_db sess gid g s1 s2 t db) g \<noteq> []"
proof -
  have "new_turn sess gid g ([s1, s2], card_id s1 = card_id s2) t
          \<in> set (game_turns (round_db sess gid g s1 s2 t db) g)"
    by (simp add: game_turns_def upsert_mem) (simp add: new_turn_def)
  then show ?thesis by auto
qed

lemma second_click_eq:
  assumes "reveal g (hold_card g) = Inr s1" and "POST_click req = Some c"
    and "reveal g c = Inr s2"
    and "game_completed (round_db sess gid g s1 s2 (now req) db)
           (update_turn False EmptyDict g) = Inr b"
    and "qs_last (game_turns (round_db sess gid g s1 s2 (now req) db)
           (update_turn False EmptyDict g)) = Some l"
  shows "second_click M req context db sess gid g =
     (if b
      then (finish_response
              (context ++ [''click'' \<mapsto> JClicks [s1, s2],
                           ''match'' \<mapsto> JBool (card_id s1 = card_id s2)]
                 ++ [''completed'' \<mapsto> JBool True,
                     ''score'' \<mapsto> JNum (score
                        (final_game M (round_db sess gid g s1 s2 (now req) db)
                           (update_turn False EmptyDict g) l))]),
            is_game_suspected M
              (final_game M (round_db sess gid g s1 s2 (now req) db)
                 (update_turn False EmptyDict g) l)
              (game_save
                 (final_game M (round_db sess gid g s1 s2 (now req) db)
                    (update_turn False EmptyDict g) l)
                 (round_db sess gid g s1 s2 (now req) db)),
            sess\<lparr>s_turn := Some (turn_key sess gid + 1), s_game := None\<rparr>)
      else (finish_response
              (context ++ [''click'' \<mapsto> JClicks [s1, s2],
                           ''match'' \<mapsto> JBool (card_id s1 = card_id s2)]),
            round_db sess gid g s1 s2 (now req) db,
            sess\<lparr>s_turn := Some (turn_key sess gid + 1)\<rparr>))"
proof -
  note b = assms(4) [unfolded round_db_def]
  note eq = second_click_resolved [OF assms(1) assms(2) assms(3) b, of M "context"]
  show ?thesis
  proof (cases b)
    case True
    show ?thesis
      unfolding eq
      unfolding round_db_def [symmetric] close_game_eq [OF assms(5)]
      using True by simp
  next
    case False
    show ?thesis
      unfolding eq
      unfolding round_db_def [symmetric]
      using False by simp
  qed
qed

lemma second_click_answer:
  assumes "fst (second_click M req context db sess gid g) = JsonResponse body st"
  obtains s1 s2 c b l where
    "reveal g (hold_card g) = Inr s1" and "POST_click req = Some c" and "reveal g c = Inr s2"
    and "game_completed (round_db sess gid g s1 s2 (now req) db)
           (update_turn False EmptyDict g) = Inr b"
    and "qs_last (game_turns (round_db sess gid g s1 s2 (now req) db)
           (update_turn False EmptyDict g)) = Some l"
proof -
  obtain s1 s2 c b where r: "reveal g (hold_card g) = Inr s1" "POST_click req = Some c"
    "reveal g c = Inr s2"
    and b: "game_completed (round_db sess gid g s1 s2 (now req) db)
              (update_turn False EmptyDict g) = Inr b"
    using second_click_response [OF assms] unfolding round_db_def by blast
  have "game_turns (round_db sess gid g s1 s2 (now req) db) (update_turn False EmptyDict g) \<noteq> []"
    using game_turns_round_db_nonempty [of sess gid g s1 s2 "now req" db]
    by (simp add: game_turns_pk [of "update_turn False EmptyDict g" g])
  then obtain l where "qs_last (game_turns (round_db sess gid g s1 s2 (now req) db)
           (update_turn False EmptyDict g)) = Some l"
    using qs_last_None by (metis option.exhaust)
  then show ?thesis using r b that by blast
qed

lemma first_click_answer:
  assumes "first_click req db sess g = (JsonResponse body st, db', sess')"
  shows "\<exists>r k cd. POST_click req = Some (Click r k) \<and> get_card_id g (Click r k) = Inr cd
     \<and> body = [''success'' \<mapsto> JBool True,
                ''click'' \<mapsto> JClicks [\<lparr>row = r, column = k, card_id = cd\<rparr>]]
     \<and> st = 200 \<and> db' = game_save (update_turn True (Click r k) g) db \<and> sess' = sess"
  using assms
  by (auto simp: first_click_def json_loads_def Let_def
      split: option.splits sum.splits payload.splits if_splits)

lemma game_completed_Inr:
  assumes "game_completed db g = Inr b"
  shows "playfield g \<noteq> []"
    and "b = (rat_of_nat (matched_turns db g)
              = rat_of_nat (length (playfield g) * length (hd (playfield g))) / 2)"
  using assms
  by (cases "playfield g"; simp add: game_completed_def matched_turns_def Let_def)+

lemma matched_turns_cong:
  "game_pk h = game_pk g \<Longrightarrow> turns db1 = turns db2 \<Longrightarrow> matched_turns db1 h = matched_turns db2 g"
  by (simp add: matched_turns_def game_turns_def)

lemma Game_get_Some:
  "Game_get db gid p = Some g \<Longrightarrow>
     g \<in> set (games db) \<and> game_pk g = gid \<and> player g = p \<and> active g \<and> \<not> finished g"
  unfolding Game_get_def by (auto simp: find_Some_iff)

lemma game_row_saved: "game_row (game_save g db) (game_pk g) = Some g"
  by (simp add: game_row_def game_save_def upsert_find)

lemma game_row_suspected [simp]: "game_row (is_game_suspected M g db) k = game_row db k"
  by (simp add: game_row_def)

lemma final_game_fields [simp]:
  "game_pk (final_game M db g l) = game_pk g"
  "finished (final_game M db g l)"
  "\<not> active (final_game M db g l)"
  "player (final_game M db g l) = player g"
  "created (final_game M db g l) = created g"
  by (simp_all add: final_game_def set_finished_def end_game_def)

lemma context0_keys:
  "([''success'' \<mapsto> JBool True] ++ aquire_csrf req) ''completed'' = None"
  "([''success'' \<mapsto> JBool True] ++ aquire_csrf req) ''score'' = None"
  "([''success'' \<mapsto> JBool True] ++ aquire_csrf req) ''match'' = None"
  "([''success'' \<mapsto> JBool True] ++ aquire_csrf req) ''click'' = None"
  "([''success'' \<mapsto> JBool True] ++ aquire_csrf req) ''csrf_token'' = Some (JLazy (csrf req))"
  by (simp_all add: aquire_csrf_def map_add_def)


section \<open>Evaluation of the scenarios\<close>

text \<open>The float that \<^verbatim>\<open>total_seconds\<close> gives for 333334 microseconds.\<close>

lemma ex_seconds: "total_seconds 333334 = 1501202878189917 / 4503599627370496"
  by code_simp

lemmas play_defs = post_def Game_get_def first_click_def second_click_def close_game_def
  json_loads_def get_card_id_def list_index_def reveal_def match_def update_turn_def
  end_game_def set_finished_def is_game_suspected_def game_save_def turn_save_def
  game_turns_def game_completed_def timedelta_div_def divide_and_round_def ex_seconds
  finish_response_def aquire_csrf_def new_turn_def turn_key_def Let_def

lemmas ex_defs = ex_game_def ex_db_def ex_sess_def ex_M_def click_def ex_turn1_def ex_turn2_def
  ex_turn3_def ex_db5_def ex_sess5_def ex_db6_def

lemma ex_reach5:
  "snd (play ex_M [click 0 0 10, click 1 0 20, click 0 1 30, click 1 1 40, click 0 2 50]
     ex_db ex_sess) = (ex_db5, ex_sess5)"
  by (simp add: play_defs ex_defs)

lemma ex_last_click:
  "snd (post ex_M (click 1 2 1000001) ex_db5 ex_sess5) = (ex_db6, ex_sess5\<lparr>s_turn := Some 14, s_game := None\<rparr>)"
  by (simp add: play_defs ex_defs)

section \<open>Completion of a game\<close>

text \<open>
  Claim C1. On an active, unfinished game that the play endpoint answers, the response
  declares the game complete exactly when the click resolves a round and, the round stored,
  the number of the game's turns with a true match flag equals rows times columns over two;
  the response then carries \<^verbatim>\<open>completed: true\<close> and the score saved on the game, which
  is finished. On a playfield of 2 rows and 3 columns this is at exactly 3 matched turns.
\<close>

theorem completion_at_half_the_cells:
  assumes "s_game sess = Some gid" and "s_player sess = Some p"
    and "Game_get db gid p = Some g"
    and "post M req db sess = (JsonResponse body st, db', sess')"
  shows "((body ''completed'' = Some (JBool True)) =
            (open_turn g \<and> rat_of_nat (matched_turns db' g)
               = rat_of_nat (length (playfield g) * length (hd (playfield g))) / 2))
       \<and> (body ''completed'' = Some (JBool True) \<longrightarrow>
            (\<exists>g'. game_row db' gid = Some g' \<and> finished g'
               \<and> body ''score'' = Some (JNum (score g'))))
       \<and> (length (playfield g) = 2 \<and> length (hd (playfield g)) = 3 \<longrightarrow>
            (body ''completed'' = Some (JBool True)) = (open_turn g \<and> matched_turns db' g = 3))"
proof -
  note found = Game_get_Some [OF assms(3)]
  note post_eq = post_found [OF assms(1,2,3), of M req]
  have main: "((body ''completed'' = Some (JBool True)) =
            (open_turn g \<and> rat_of_nat (matched_turns db' g)
               = rat_of_nat (length (playfield g) * length (hd (playfield g))) / 2))
       \<and> (body ''completed'' = Some (JBool True) \<longrightarrow>
            (\<exists>g'. game_row db' gid = Some g' \<and> finished g'
               \<and> body ''score'' = Some (JNum (score g'))))"
  proof (cases "open_turn g")
    case False
    then have "first_click req db sess g = (JsonResponse body st, db', sess')"
      using post_eq assms(4) by simp
    then have "body ''completed'' = None"
      using first_click_answer by fastforce
    then show ?thesis using False by simp
  next
    case True
    define ctx0 where "ctx0 = [''success'' \<mapsto> JBool True] ++ aquire_csrf req"
    have sc: "second_click M req ctx0 db sess gid g = (JsonResponse body st, db', sess')"
      using post_eq assms(4) True by (simp add: ctx0_def)
    then have f: "fst (second_click M req ctx0 db sess gid g) = JsonResponse body st"
      by simp
    obtain s1 s2 c b l where r: "reveal g (hold_card g) = Inr s1" "POST_click req = Some c"
      "reveal g c = Inr s2"
      and b: "game_completed (round_db sess gid g s1 s2 (now req) db)
           (update_turn False EmptyDict g) = Inr b"
      and l: "qs_last (game_turns (round_db sess gid g s1 s2 (now req) db)
           (update_turn False EmptyDict g)) = Some l"
      by (rule second_click_answer [OF f])
    define db2 where "db2 = round_db sess gid g s1 s2 (now req) db"
    define g1 where "g1 = update_turn False EmptyDict g"
    define fg where "fg = final_game M db2 g1 l"
    define ctx1 where "ctx1 = ctx0 ++ [''click'' \<mapsto> JClicks [s1, s2],
                           ''match'' \<mapsto> JBool (card_id s1 = card_id s2)]"
    note eq = second_click_eq [OF r b l, of M "ctx0", folded db2_def g1_def, folded fg_def ctx1_def]
    have bb: "b = (rat_of_nat (matched_turns db2 g)
              = rat_of_nat (length (playfield g) * length (hd (playfield g))) / 2)"
      using game_completed_Inr(2) [OF b]
        matched_turns_cong [of g1 g db2 db2]
      by (simp add: db2_def g1_def)
    have c1: "ctx1 ''completed'' = None" "ctx1 ''score'' = None"
      by (simp_all add: ctx1_def ctx0_def aquire_csrf_def map_add_def)
    show ?thesis
    proof (cases b)
      case True
      have res: "finish_response (ctx1 ++ [''completed'' \<mapsto> JBool True, ''score'' \<mapsto> JNum (score fg)])
                   = JsonResponse body st"
        and db': "db' = is_game_suspected M fg (game_save fg db2)"
        using eq sc True by simp_all
      have bc: "body ''completed'' = Some (JBool True)"
        using finish_response_body(2) [OF res, of "''completed''"] by (simp add: map_add_def)
      have bs: "body ''score'' = Some (JNum (score fg))"
        using finish_response_body(2) [OF res, of "''score''"] by (simp add: map_add_def)
      have pk: "game_pk fg = gid"
        using found by (simp add: fg_def g1_def)
      have row: "game_row db' gid = Some fg"
        using game_row_saved [of fg db2] by (simp add: db' pk)
      have mt: "matched_turns db' g = matched_turns db2 g"
        by (rule matched_turns_cong) (simp_all add: db')
      show ?thesis
        using bc bs row mt bb True \<open>open_turn g\<close> by (simp add: fg_def)
    next
      case False
      have res: "finish_response ctx1 = JsonResponse body st" and db': "db' = db2"
        using eq sc False by simp_all
      have bc: "body ''completed'' = None"
        using finish_response_body(2) [OF res, of "''completed''"] c1 by simp
      show ?thesis
        using bc bb False db' by simp
    qed
  qed
  have six: "length (playfield g) = 2 \<and> length (hd (playfield g)) = 3 \<longrightarrow>
     (rat_of_nat (matched_turns db' g)
        = rat_of_nat (length (playfield g) * length (hd (playfield g))) / 2)
     = (matched_turns db' g = 3)"
  proof
    assume h: "length (playfield g) = 2 \<and> length (hd (playfield g)) = 3"
    have "(rat_of_nat (matched_turns db' g) = rat_of_nat 6 / 2) = (matched_turns db' g = 3)"
    proof -
      have "rat_of_nat 6 / 2 = rat_of_nat 3" by simp
      then show ?thesis by (simp only: of_nat_eq_iff)
    qed
    then show "(rat_of_nat (matched_turns db' g)
        = rat_of_nat (length (playfield g) * length (hd (playfield g))) / 2)
     = (matched_turns db' g = 3)"
      using h by simp
  qed
  show ?thesis using main six by blast
qed

theorem completion_at_half_the_cells_witness:
  "matched_turns ex_db6 (ex_game\<lparr>open_turn := True, hold_card := Click 0 2\<rparr>) = 3
   \<and> (\<exists>body st. fst (post ex_M (click 1 2 1000001) ex_db5 ex_sess5) = JsonResponse body st
         \<and> body ''completed'' = Some (JBool True)
         \<and> (\<exists>g'. game_row ex_db6 1 = Some g' \<and> finished g'
               \<and> body ''score'' = Some (JNum (score g'))))"
proof -
  define g where "g = ex_game\<lparr>open_turn := True, hold_card := Click 0 2\<rparr>"
  have m: "matched_turns ex_db6 g = 3"
    by (simp add: g_def matched_turns_def game_turns_def ex_defs)
  obtain body st where r: "fst (post ex_M (click 1 2 1000001) ex_db5 ex_sess5) = JsonResponse body st"
    by (simp add: play_defs ex_defs)
  have p: "post ex_M (click 1 2 1000001) ex_db5 ex_sess5
             = (JsonResponse body st, ex_db6, ex_sess5\<lparr>s_turn := Some 14, s_game := None\<rparr>)"
    using r ex_last_click by (simp add: prod_eq_iff)
  have a: "s_game ex_sess5 = Some 1" and b: "s_player ex_sess5 = Some ''ann''"
    by (simp_all add: ex_defs)
  have c: "Game_get ex_db5 1 ''ann'' = Some g"
    by (simp add: g_def Game_get_def ex_defs)
  have d: "length (playfield g) = 2 \<and> length (hd (playfield g)) = 3" and o: "open_turn g"
    by (simp_all add: g_def ex_defs)
  note t = completion_at_half_the_cells [OF a b c p]
  have comp: "body ''completed'' = Some (JBool True)"
    using t m d o by simp
  then have sc: "\<exists>g'. game_row ex_db6 1 = Some g' \<and> finished g'
                   \<and> body ''score'' = Some (JNum (score g'))"
    using t by simp
  have "\<exists>body st. fst (post ex_M (click 1 2 1000001) ex_db5 ex_sess5) = JsonResponse body st
         \<and> body ''completed'' = Some (JBool True)
         \<and> (\<exists>g'. game_row ex_db6 1 = Some g' \<and> finished g'
               \<and> body ''score'' = Some (JNum (score g')))"
    using r comp sc by (intro exI [of _ body] exI [of _ st] conjI)
  then show ?thesis
    using m unfolding g_def by (rule conjI [rotated])
qed

section \<open>The seconds per turn of a completed game\<close>

text \<open>Division of a \<^verbatim>\<open>timedelta\<close> by a positive integer gives the nearest whole number of
  microseconds, the even one on a tie.\<close>

lemma divide_and_round_nearest:
  assumes "0 < b"
  shows "2 * \<bar>a - b * divide_and_round a b\<bar> \<le> b
     \<and> (2 * \<bar>a - b * divide_and_round a b\<bar> = b \<longrightarrow> even (divide_and_round a b))"
proof -
  define q where "q = a div b"
  define r where "r = a mod b"
  define d where "d = divide_and_round a b"
  have a: "a = b * q + r" by (simp add: q_def r_def)
  have r0: "0 \<le> r" and rb: "r < b" using assms by (simp_all add: r_def)
  have d: "d = (if b < 2 * r \<or> (2 * r = b \<and> q mod 2 = 1) then q + 1 else q)"
    using assms by (simp add: d_def divide_and_round_def Let_def q_def r_def)
  consider (up) "b < 2 * r" | (tie_odd) "2 * r = b" "odd q" | (tie_even) "2 * r = b" "even q"
    | (down) "2 * r < b"
    by linarith
  then have "2 * \<bar>a - b * d\<bar> \<le> b \<and> (2 * \<bar>a - b * d\<bar> = b \<longrightarrow> even d)"
  proof cases
    case up
    then have "d = q + 1" by (simp add: d)
    then have "a - b * d = r - b" by (simp add: a algebra_simps)
    then show ?thesis using up r0 rb by simp
  next
    case tie_odd
    then have "q mod 2 = 1" by (simp add: odd_iff_mod_2_eq_one)
    then have dq: "d = q + 1" using tie_odd by (simp add: d)
    then have "a - b * d = r - b" by (simp add: a algebra_simps)
    moreover have "even d" using tie_odd dq by simp
    ultimately show ?thesis using tie_odd r0 rb by simp
  next
    case tie_even
    then have "q mod 2 \<noteq> 1" by (simp add: even_iff_mod_2_eq_zero)
    then have dq: "d = q" using tie_even by (simp add: d)
    then have "a - b * d = r" by (simp add: a)
    then show ?thesis using tie_even dq r0 rb by simp
  next
    case down
    then have dq: "d = q" by (simp add: d)
    then have "a - b * d = r" by (simp add: a)
    then show ?thesis using down r0 rb by simp
  qed
  then show ?thesis unfolding d_def .
qed

text \<open>The exponent that \<open>float_exponent\<close> computes is that of the quotient.\<close>

lemma bitlen_powi:
  assumes "0 < a"
  shows "(2::rat) powi (bitlen a - 1) \<le> rat_of_int a" and "rat_of_int a < 2 powi (bitlen a)"
proof -
  note b = bitlen_bounds [OF assms]
  have ge: "1 \<le> bitlen a"
    using assms bitlen_eq_zero_iff [of a] bitlen_nonneg [of a] by linarith
  have "rat_of_int (2 ^ nat (bitlen a - 1)) \<le> rat_of_int a"
    using b by (simp only: of_int_le_iff)
  then show "(2::rat) powi (bitlen a - 1) \<le> rat_of_int a"
    using ge by (simp add: power_int_def)
  have "rat_of_int a < rat_of_int (2 ^ nat (bitlen a))"
    using b by (simp only: of_int_less_iff)
  then show "rat_of_int a < 2 powi (bitlen a)"
    using ge by (simp add: power_int_def)
qed

lemma float_exponent_bounds:
  assumes "0 < a" and "0 < b"
  shows "rat_of_int b * 2 powi (float_exponent a b) \<le> rat_of_int a"
    and "rat_of_int a < rat_of_int b * 2 powi (float_exponent a b + 1)"
proof -
  define e where "e = bitlen a - bitlen b"
  have p: "(0::rat) < 2 powi k" for k by simp
  have bp: "(0::rat) < rat_of_int b" using assms(2) by simp
  have up: "rat_of_int a < rat_of_int b * 2 powi (e + 1)"
  proof -
    have "rat_of_int a < 2 powi (bitlen a)" by (rule bitlen_powi(2) [OF assms(1)])
    also have "\<dots> = 2 powi (bitlen b - 1) * 2 powi (e + 1)"
      by (simp add: e_def flip: power_int_add)
    also have "\<dots> \<le> rat_of_int b * 2 powi (e + 1)"
      using bitlen_powi(1) [OF assms(2)] by (simp add: mult_right_mono)
    finally show ?thesis .
  qed
  have lo: "rat_of_int b * 2 powi (e - 1) < rat_of_int a"
  proof -
    have "rat_of_int b * 2 powi (e - 1) < 2 powi (bitlen b) * 2 powi (e - 1)"
      using bitlen_powi(2) [OF assms(2)] by (simp add: mult_strict_right_mono)
    also have "\<dots> = 2 powi (bitlen a - 1)"
      by (simp add: e_def flip: power_int_add)
    also have "\<dots> \<le> rat_of_int a" by (rule bitlen_powi(1) [OF assms(1)])
    finally show ?thesis .
  qed
  show "rat_of_int b * 2 powi (float_exponent a b) \<le> rat_of_int a"
    using lo by (auto simp: float_exponent_def Let_def e_def)
  show "rat_of_int a < rat_of_int b * 2 powi (float_exponent a b + 1)"
    using up by (auto simp: float_exponent_def Let_def e_def not_le)
qed


text \<open>\<open>true_divide\<close> gives the double nearest to the quotient: a significand \<open>m\<close> of 53
  bits (\<open>2 ^ 53\<close> itself is the first double of the next binade) and an exponent \<open>p\<close>, at
  most half a unit in the last place away from the quotient, with \<open>m\<close> even on a tie.\<close>

lemma nearest_int_range:
  fixes x :: rat and m :: int
  assumes "2 * \<bar>x - rat_of_int m\<bar> \<le> 1" and "rat_of_int l \<le> \<bar>x\<bar>" and "\<bar>x\<bar> < rat_of_int u"
  shows "l \<le> \<bar>m\<bar> \<and> \<bar>m\<bar> \<le> u"
proof -
  define y where "y = \<bar>x\<bar>"
  define k where "k = rat_of_int \<bar>m\<bar>"
  have a: "\<bar>y - k\<bar> \<le> \<bar>x - rat_of_int m\<bar>"
    unfolding y_def k_def by (simp only: of_int_abs abs_triangle_ineq3)
  have b: "2 * \<bar>y - k\<bar> \<le> 1"
    by (rule order_trans [OF mult_left_mono [OF a] assms(1)]) simp
  have ly: "rat_of_int l \<le> y" and yu: "y < rat_of_int u"
    using assms(2,3) by (simp_all add: y_def)
  have c: "y - k \<le> \<bar>y - k\<bar>" "k - y \<le> \<bar>y - k\<bar>" by simp_all
  define t where "t = \<bar>y - k\<bar>"
  note b' = b [folded t_def] and c' = c [folded t_def]
  have "rat_of_int l - 1 < k" using b' c' ly by linarith
  then have "rat_of_int (l - 1) < rat_of_int \<bar>m\<bar>" by (simp add: k_def)
  then have 1: "l - 1 < \<bar>m\<bar>" by (simp only: of_int_less_iff)
  have "k < rat_of_int u + 1" using b' c' yu by linarith
  then have "rat_of_int \<bar>m\<bar> < rat_of_int (u + 1)" by (simp add: k_def)
  then have 2: "\<bar>m\<bar> < u + 1" by (simp only: of_int_less_iff)
  show ?thesis using 1 2 by linarith
qed

lemma divide_and_round_rat:
  assumes "0 < b"
  shows "2 * \<bar>rat_of_int a / rat_of_int b - rat_of_int (divide_and_round a b)\<bar> \<le> 1"
    and "2 * \<bar>rat_of_int a / rat_of_int b - rat_of_int (divide_and_round a b)\<bar> = 1
           \<Longrightarrow> even (divide_and_round a b)"
proof -
  define d where "d = divide_and_round a b"
  have bp: "0 < rat_of_int b" using assms by simp
  have e: "rat_of_int a / rat_of_int b - rat_of_int d = rat_of_int (a - b * d) / rat_of_int b"
    using bp by (simp add: field_simps)
  have f: "2 * \<bar>rat_of_int a / rat_of_int b - rat_of_int d\<bar>
             = rat_of_int (2 * \<bar>a - b * d\<bar>) / rat_of_int b"
    unfolding e using bp by (simp add: abs_divide)
  note n = divide_and_round_nearest [OF assms, of a, folded d_def]
  have "rat_of_int (2 * \<bar>a - b * d\<bar>) \<le> rat_of_int b"
    using n by (simp only: of_int_le_iff)
  then show "2 * \<bar>rat_of_int a / rat_of_int b - rat_of_int d\<bar> \<le> 1"
    unfolding f using bp by (simp add: field_simps)
  assume "2 * \<bar>rat_of_int a / rat_of_int b - rat_of_int d\<bar> = 1"
  then have "rat_of_int (2 * \<bar>a - b * d\<bar>) = rat_of_int b"
    unfolding f using bp by (simp add: field_simps)
  then have "2 * \<bar>a - b * d\<bar> = b" by (simp only: of_int_eq_iff)
  then show "even d" using n by simp
qed

lemma true_divide_nearest:
  assumes "a \<noteq> 0" and "0 < b"
  shows "\<exists>m p. true_divide a b = rat_of_int m * 2 powi p
            \<and> 2 ^ 52 \<le> \<bar>m\<bar> \<and> \<bar>m\<bar> \<le> 2 ^ 53
            \<and> 2 * \<bar>rat_of_int a / rat_of_int b - true_divide a b\<bar> \<le> 2 powi p
            \<and> (2 * \<bar>rat_of_int a / rat_of_int b - true_divide a b\<bar> = 2 powi p \<longrightarrow> even m)"
proof -
  define e where "e = float_exponent \<bar>a\<bar> b"
  define p where "p = e - 52"
  define x where "x = rat_of_int a / (rat_of_int b * 2 powi p)"
  define m where "m = (if 0 \<le> p then divide_and_round a (b * 2 ^ nat p)
                    else divide_and_round (a * 2 ^ nat (- p)) b)"
  have bp: "0 < rat_of_int b" using assms(2) by simp
  have pp: "(0::rat) < 2 powi p" by simp
  have td: "true_divide a b = rat_of_int m * 2 powi p"
    using assms(1) by (simp add: true_divide_def Let_def m_def p_def e_def)
  have near: "2 * \<bar>x - rat_of_int m\<bar> \<le> 1 \<and> (2 * \<bar>x - rat_of_int m\<bar> = 1 \<longrightarrow> even m)"
  proof (cases "0 \<le> p")
    case True
    have m: "m = divide_and_round a (b * 2 ^ nat p)" using True by (simp add: m_def)
    have d: "0 < b * 2 ^ nat p" using assms(2) by simp
    have "rat_of_int a / rat_of_int (b * 2 ^ nat p) = x"
      using True by (simp add: x_def power_int_def)
    then show ?thesis
      using divide_and_round_rat [OF d, of a] unfolding m by auto
  next
    case False
    have m: "m = divide_and_round (a * 2 ^ nat (- p)) b" using False by (simp add: m_def)
    have "rat_of_int (a * 2 ^ nat (- p)) / rat_of_int b = x"
      using False by (simp add: x_def power_int_def field_simps)
    then show ?thesis
      using divide_and_round_rat [OF assms(2), of "a * 2 ^ nat (- p)"] unfolding m by auto
  qed
  have ap: "0 < \<bar>a\<bar>" using assms(1) by simp
  note eb = float_exponent_bounds [OF ap assms(2), folded e_def]
  have ax: "\<bar>x\<bar> = rat_of_int \<bar>a\<bar> / (rat_of_int b * 2 powi p)"
    using bp by (simp add: x_def abs_divide abs_mult)
  have e52: "(2::rat) powi e = 2 powi p * 2 ^ 52"
    by (simp add: p_def power_int_diff)
  have e53: "(2::rat) powi (e + 1) = 2 powi p * 2 ^ 53"
    by (simp add: p_def power_int_diff power_int_add)
  have lo: "rat_of_int (2 ^ 52) \<le> \<bar>x\<bar>"
    using eb(1) bp pp unfolding ax e52 by (simp add: field_simps)
  have hi: "\<bar>x\<bar> < rat_of_int (2 ^ 53)"
    using eb(2) bp pp unfolding ax e53 by (simp add: field_simps)
  have rng: "2 ^ 52 \<le> \<bar>m\<bar> \<and> \<bar>m\<bar> \<le> 2 ^ 53"
    using nearest_int_range [OF _ lo hi] near by simp
  have diff: "rat_of_int a / rat_of_int b - true_divide a b = (x - rat_of_int m) * 2 powi p"
    using bp by (simp add: td x_def field_simps)
  have ad: "2 * \<bar>rat_of_int a / rat_of_int b - true_divide a b\<bar> = (2 * \<bar>x - rat_of_int m\<bar>) * 2 powi p"
    unfolding diff by (simp add: abs_mult)
  have le: "2 * \<bar>rat_of_int a / rat_of_int b - true_divide a b\<bar> \<le> 2 powi p"
    unfolding ad using near pp by (simp add: mult_le_cancel_right1)
  have tie: "2 * \<bar>rat_of_int a / rat_of_int b - true_divide a b\<bar> = 2 powi p \<longrightarrow> even m"
    unfolding ad using near pp by simp
  have "true_divide a b = rat_of_int m * 2 powi p
            \<and> 2 ^ 52 \<le> \<bar>m\<bar> \<and> \<bar>m\<bar> \<le> 2 ^ 53
            \<and> 2 * \<bar>rat_of_int a / rat_of_int b - true_divide a b\<bar> \<le> 2 powi p
            \<and> (2 * \<bar>rat_of_int a / rat_of_int b - true_divide a b\<bar> = 2 powi p \<longrightarrow> even m)"
    using td rng le tie by simp
  then show ?thesis
    by (intro exI [where x = p] exI [where x = m])
qed

lemma ex_exact_float: "true_divide 1000001 3000000 = 1501201376990041 / 4503599627370496"
  by code_simp

text \<open>The row that the closing branch saves.\<close>

lemma post_completed_row:
  assumes "s_game sess = Some gid" and "s_player sess = Some p"
    and "Game_get db gid p = Some g"
    and "post M req db sess = (JsonResponse body st, db', sess')"
    and "body ''completed'' = Some (JBool True)"
  shows "\<exists>g' l. game_row db' gid = Some g' \<and> qs_last (game_turns db' g) = Some l
           \<and> created g' = created g \<and> finished g' \<and> \<not> active g'
           \<and> score g' = calculate_score M (update_turn False EmptyDict g) (game_turns db' g)
           \<and> time g' = total_seconds
                 (divide_and_round (turn_created l - created g)
                    (int (length (game_turns db' g))))"
proof -
  note found = Game_get_Some [OF assms(3)]
  note post_eq = post_found [OF assms(1,2,3), of M req]
  have o: "open_turn g"
  proof (rule ccontr)
    assume "\<not> open_turn g"
    then have "first_click req db sess g = (JsonResponse body st, db', sess')"
      using post_eq assms(4) by simp
    then have "body ''completed'' = None"
      using first_click_answer by fastforce
    then show False using assms(5) by simp
  qed
  define ctx0 where "ctx0 = [''success'' \<mapsto> JBool True] ++ aquire_csrf req"
  have sc: "second_click M req ctx0 db sess gid g = (JsonResponse body st, db', sess')"
    using post_eq assms(4) o by (simp add: ctx0_def)
  then have f: "fst (second_click M req ctx0 db sess gid g) = JsonResponse body st"
    by simp
  obtain s1 s2 c b l where r: "reveal g (hold_card g) = Inr s1" "POST_click req = Some c"
    "reveal g c = Inr s2"
    and b: "game_completed (round_db sess gid g s1 s2 (now req) db)
         (update_turn False EmptyDict g) = Inr b"
    and l: "qs_last (game_turns (round_db sess gid g s1 s2 (now req) db)
         (update_turn False EmptyDict g)) = Some l"
    by (rule second_click_answer [OF f])
  define db2 where "db2 = round_db sess gid g s1 s2 (now req) db"
  define g1 where "g1 = update_turn False EmptyDict g"
  define fg where "fg = final_game M db2 g1 l"
  define ctx1 where "ctx1 = ctx0 ++ [''click'' \<mapsto> JClicks [s1, s2],
                         ''match'' \<mapsto> JBool (card_id s1 = card_id s2)]"
  note eq = second_click_eq [OF r b l, of M "ctx0", folded db2_def g1_def, folded fg_def ctx1_def]
  have c1: "ctx1 ''completed'' = None"
    by (simp add: ctx1_def ctx0_def aquire_csrf_def map_add_def)
  have bt: b
  proof (rule ccontr)
    assume "\<not> b"
    then have "finish_response ctx1 = JsonResponse body st"
      using eq sc by simp
    then have "body ''completed'' = None"
      using finish_response_body(2) [of ctx1 body st "''completed''"] c1 by simp
    then show False using assms(5) by simp
  qed
  have db': "db' = is_game_suspected M fg (game_save fg db2)"
    using eq sc bt by simp
  have pk: "game_pk fg = gid"
    using found by (simp add: fg_def g1_def)
  have row: "game_row db' gid = Some fg"
    using game_row_saved [of fg db2] by (simp add: db' pk)
  have gt: "game_turns db' g = game_turns db2 g1"
    by (simp add: db' game_turns_def g1_def)
  have l': "qs_last (game_turns db' g) = Some l"
    using l by (simp add: gt db2_def g1_def)
  have cr: "created g1 = created g"
    by (simp add: g1_def update_turn_def)
  have tm: "time fg = total_seconds
                 (divide_and_round (turn_created l - created g)
                    (int (length (game_turns db' g))))"
    by (simp add: fg_def final_game_def set_finished_def end_game_def gt cr)
  have sco: "score fg = calculate_score M (update_turn False EmptyDict g) (game_turns db' g)"
    by (simp add: fg_def final_game_def set_finished_def end_game_def gt) (simp add: g1_def)
  have fin: "created fg = created g" "finished fg" "\<not> active fg"
    by (simp_all add: fg_def cr)
  have "game_row db' gid = Some fg \<and> qs_last (game_turns db' g) = Some l
           \<and> created fg = created g \<and> finished fg \<and> \<not> active fg
           \<and> score fg = calculate_score M (update_turn False EmptyDict g) (game_turns db' g)
           \<and> time fg = total_seconds
                 (divide_and_round (turn_created l - created g)
                    (int (length (game_turns db' g))))"
    using row l' fin sco tm by (intro conjI)
  then show ?thesis
    by (intro exI [where x = l] exI [where x = fg])
qed

lemma ex_last_click_completed:
  "\<exists>body st. fst (post ex_M (click 1 2 1000001) ex_db5 ex_sess5) = JsonResponse body st
      \<and> body ''completed'' = Some (JBool True)"
  by (simp add: play_defs ex_defs)

lemma ex_db6_rows:
  "game_row ex_db6 1 = Some ex_game6" "game_turns ex_db6 ex_game5 = [ex_turn1, ex_turn2, ex_turn3]"
  "game_turns ex_db6 ex_game6 = [ex_turn1, ex_turn2, ex_turn3]"
  "qs_last [ex_turn1, ex_turn2, ex_turn3] = Some ex_turn3"
  by (simp_all add: game_row_def game_turns_def ex_game5_def ex_game6_def ex_defs)


text \<open>
  Claim C7, as amended. When a click completes a game, the seconds per turn recorded on the
  game come from the difference between the creation time of the game's last turn (the one
  with the largest key) and the creation time of the game, divided by the number of the
  game's turns, in two roundings. The division rounds the quotient to a whole number of
  microseconds, the nearest one and the even one on a tie (\<open>divide_and_round\<close>). The
  conversion to seconds gives the double nearest to that number of microseconds over a
  million (\<open>total_seconds\<close>): zero for zero, and otherwise a significand \<open>m\<close> of 53 bits
  and an exponent \<open>p\<close>, at most half of \<open>2 powi p\<close> away, with \<open>m\<close> even on a tie.
\<close>

theorem seconds_per_turn_rounded:
  assumes "s_game sess = Some gid" and "s_player sess = Some p"
    and "Game_get db gid p = Some g"
    and "post M req db sess = (JsonResponse body st, db', sess')"
    and "body ''completed'' = Some (JBool True)"
  shows "\<exists>g' l us. game_row db' gid = Some g' \<and> qs_last (game_turns db' g) = Some l
           \<and> created g' = created g
           \<and> us = divide_and_round (turn_created l - created g)
                    (int (length (game_turns db' g)))
           \<and> 2 * \<bar>(turn_created l - created g) - int (length (game_turns db' g)) * us\<bar>
               \<le> int (length (game_turns db' g))
           \<and> (2 * \<bar>(turn_created l - created g) - int (length (game_turns db' g)) * us\<bar>
                 = int (length (game_turns db' g)) \<longrightarrow> even us)
           \<and> time g' = total_seconds us
           \<and> (if us = 0 then time g' = 0
               else \<exists>m p. time g' = rat_of_int m * 2 powi p
                      \<and> 2 ^ 52 \<le> \<bar>m\<bar> \<and> \<bar>m\<bar> \<le> 2 ^ 53
                      \<and> 2 * \<bar>rat_of_int us / 1000000 - time g'\<bar> \<le> 2 powi p
                      \<and> (2 * \<bar>rat_of_int us / 1000000 - time g'\<bar> = 2 powi p \<longrightarrow> even m))"
proof -
  obtain g' l where r: "game_row db' gid = Some g'" "qs_last (game_turns db' g) = Some l"
    "created g' = created g"
    "time g' = total_seconds
                 (divide_and_round (turn_created l - created g)
                    (int (length (game_turns db' g))))"
    using post_completed_row [OF assms] by blast
  define n where "n = int (length (game_turns db' g))"
  define us where "us = divide_and_round (turn_created l - created g) n"
  have ne: "game_turns db' g \<noteq> []"
    using r(2) qs_last_None [of "game_turns db' g"] by auto
  then have pos: "0 < n" by (simp add: n_def)
  note near = divide_and_round_nearest [OF pos, of "turn_created l - created g", folded us_def]
  have tm: "time g' = total_seconds us"
    using r(4) by (simp add: us_def n_def)
  have fl: "if us = 0 then time g' = 0
               else \<exists>m p. time g' = rat_of_int m * 2 powi p
                      \<and> 2 ^ 52 \<le> \<bar>m\<bar> \<and> \<bar>m\<bar> \<le> 2 ^ 53
                      \<and> 2 * \<bar>rat_of_int us / 1000000 - time g'\<bar> \<le> 2 powi p
                      \<and> (2 * \<bar>rat_of_int us / 1000000 - time g'\<bar> = 2 powi p \<longrightarrow> even m)"
  proof (cases "us = 0")
    case True
    then show ?thesis by (simp add: tm total_seconds_def true_divide_def)
  next
    case False
    have "0 < (1000000::int)" by simp
    from true_divide_nearest [OF False this] show ?thesis
      using False by (simp add: tm total_seconds_def)
  qed
  have "game_row db' gid = Some g' \<and> qs_last (game_turns db' g) = Some l
           \<and> created g' = created g
           \<and> us = divide_and_round (turn_created l - created g) n
           \<and> 2 * \<bar>(turn_created l - created g) - n * us\<bar> \<le> n
           \<and> (2 * \<bar>(turn_created l - created g) - n * us\<bar> = n \<longrightarrow> even us)
           \<and> time g' = total_seconds us
           \<and> (if us = 0 then time g' = 0
               else \<exists>m p. time g' = rat_of_int m * 2 powi p
                      \<and> 2 ^ 52 \<le> \<bar>m\<bar> \<and> \<bar>m\<bar> \<le> 2 ^ 53
                      \<and> 2 * \<bar>rat_of_int us / 1000000 - time g'\<bar> \<le> 2 powi p
                      \<and> (2 * \<bar>rat_of_int us / 1000000 - time g'\<bar> = 2 powi p \<longrightarrow> even m))"
    using r(1) r(2) r(3) us_def conjunct1 [OF near] conjunct2 [OF near] tm fl
    by (intro conjI)
  then show ?thesis
    unfolding n_def
    by (intro exI [where x = us] exI [where x = l] exI [where x = g'])
qed


theorem seconds_per_turn_rounded_witness:
  "\<exists>g' l us. game_row ex_db6 1 = Some g' \<and> qs_last (game_turns ex_db6 ex_game5) = Some l
     \<and> created g' = created ex_game5
     \<and> us = divide_and_round (turn_created l - created ex_game5)
              (int (length (game_turns ex_db6 ex_game5)))
     \<and> 2 * \<bar>(turn_created l - created ex_game5) - int (length (game_turns ex_db6 ex_game5)) * us\<bar>
         \<le> int (length (game_turns ex_db6 ex_game5))
     \<and> (2 * \<bar>(turn_created l - created ex_game5) - int (length (game_turns ex_db6 ex_game5)) * us\<bar>
           = int (length (game_turns ex_db6 ex_game5)) \<longrightarrow> even us)
     \<and> time g' = total_seconds us
     \<and> (if us = 0 then time g' = 0
         else \<exists>m p. time g' = rat_of_int m * 2 powi p
                \<and> 2 ^ 52 \<le> \<bar>m\<bar> \<and> \<bar>m\<bar> \<le> 2 ^ 53
                \<and> 2 * \<bar>rat_of_int us / 1000000 - time g'\<bar> \<le> 2 powi p
                \<and> (2 * \<bar>rat_of_int us / 1000000 - time g'\<bar> = 2 powi p \<longrightarrow> even m))"
proof -
  obtain body st where r: "fst (post ex_M (click 1 2 1000001) ex_db5 ex_sess5) = JsonResponse body st"
    and comp: "body ''completed'' = Some (JBool True)"
    using ex_last_click_completed by auto
  have p: "post ex_M (click 1 2 1000001) ex_db5 ex_sess5
             = (JsonResponse body st, ex_db6, ex_sess5\<lparr>s_turn := Some 14, s_game := None\<rparr>)"
    using r ex_last_click by (simp add: prod_eq_iff)
  have a: "s_game ex_sess5 = Some 1" and b: "s_player ex_sess5 = Some ''ann''"
    by (simp_all add: ex_defs)
  have c: "Game_get ex_db5 1 ''ann'' = Some ex_game5"
    by (simp add: ex_game5_def Game_get_def ex_defs)
  show ?thesis
    by (rule seconds_per_turn_rounded [OF a b c p comp])
qed


text \<open>
  Claim C7 as the spec states it (the quotient, in seconds) fails where the difference is not
  a multiple of the number of turns. Three turns, the last one 1000001 microseconds after the
  game was created, give the float \<^verbatim>\<open>0.333334\<close>: it is neither 1000001/3000000 nor the
  float nearest to it, from which it is more than three tenths of a microsecond away.
\<close>

theorem seconds_per_turn_counterexample:
  "fst (snd (post ex_M (click 1 2 1000001) ex_db5 ex_sess5)) = ex_db6
   \<and> game_row ex_db6 1 = Some ex_game6
   \<and> qs_last (game_turns ex_db6 ex_game6) = Some ex_turn3
   \<and> length (game_turns ex_db6 ex_game6) = 3
   \<and> time ex_game6 = 1501202878189917 / 4503599627370496
   \<and> rat_of_int (turn_created ex_turn3 - created ex_game6) / 1000000 / 3 = 1000001 / 3000000
   \<and> time ex_game6
       \<noteq> rat_of_int (turn_created ex_turn3 - created ex_game6) / 1000000
            / rat_of_nat (length (game_turns ex_db6 ex_game6))
   \<and> time ex_game6
       \<noteq> true_divide (turn_created ex_turn3 - created ex_game6)
            (1000000 * int (length (game_turns ex_db6 ex_game6)))
   \<and> 3 / 10000000 < \<bar>time ex_game6 - 1000001 / 3000000\<bar>"
  by (simp add: ex_last_click ex_db6_rows)
     (simp add: ex_game6_def ex_defs ex_exact_float)

section \<open>The CSRF token in the responses\<close>

text \<open>
  Claim C5, which the code breaks on the first click of a round. Every answer of the play
  endpoint on a found game is a success with HTTP 200; it carries the CSRF token when the click
  resolves a round, and carries none when it is the first click of a round: the context that
  holds the token is built before the branch and the first-click branch returns a dictionary
  of its own.
\<close>

theorem csrf_token_on_second_click_only:
  assumes "s_game sess = Some gid" and "s_player sess = Some p"
    and "Game_get db gid p = Some g"
    and "post M req db sess = (JsonResponse body st, db', sess')"
  shows "st = 200 \<and> body ''success'' = Some (JBool True)
     \<and> body ''csrf_token'' = (if open_turn g then Some (JStr (csrf req)) else None)"
proof (cases "open_turn g")
  case False
  then have "first_click req db sess g = (JsonResponse body st, db', sess')"
    using post_found [OF assms(1,2,3), of M req] assms(4) by simp
  then obtain r k cd where "body = [''success'' \<mapsto> JBool True,
                ''click'' \<mapsto> JClicks [\<lparr>row = r, column = k, card_id = cd\<rparr>]]" "st = 200"
    using first_click_answer by blast
  then show ?thesis using False by simp
next
  case True
  define ctx0 where "ctx0 = [''success'' \<mapsto> JBool True] ++ aquire_csrf req"
  have sc: "second_click M req ctx0 db sess gid g = (JsonResponse body st, db', sess')"
    using post_found [OF assms(1,2,3), of M req] assms(4) True by (simp add: ctx0_def)
  then have f: "fst (second_click M req ctx0 db sess gid g) = JsonResponse body st"
    by simp
  obtain s1 s2 c b l where r: "reveal g (hold_card g) = Inr s1" "POST_click req = Some c"
    "reveal g c = Inr s2"
    and b: "game_completed (round_db sess gid g s1 s2 (now req) db)
         (update_turn False EmptyDict g) = Inr b"
    and l: "qs_last (game_turns (round_db sess gid g s1 s2 (now req) db)
         (update_turn False EmptyDict g)) = Some l"
    by (rule second_click_answer [OF f])
  define ctx1 where "ctx1 = ctx0 ++ [''click'' \<mapsto> JClicks [s1, s2],
                         ''match'' \<mapsto> JBool (card_id s1 = card_id s2)]"
  define ctx2 where "ctx2 = (if b then ctx1 ++ [''completed'' \<mapsto> JBool True,
      ''score'' \<mapsto> JNum (score (final_game M (round_db sess gid g s1 s2 (now req) db)
                           (update_turn False EmptyDict g) l))] else ctx1)"
  have res: "finish_response ctx2 = JsonResponse body st"
    using second_click_eq [OF r b l, of M "ctx0"] sc
    by (cases b) (simp_all add: ctx2_def ctx1_def)
  have k: "ctx2 ''csrf_token'' = Some (JLazy (csrf req))" "ctx2 ''success'' = Some (JBool True)"
    by (simp_all add: ctx2_def ctx1_def ctx0_def aquire_csrf_def map_add_def)
  show ?thesis
    using finish_response_body [OF res] k True by simp
qed


theorem csrf_token_on_second_click_only_witness:
  "\<exists>body. fst (post ex_M (click 0 0 10) ex_db ex_sess) = JsonResponse body 200
      \<and> body ''success'' = Some (JBool True) \<and> body ''csrf_token'' = None"
proof -
  obtain body st where r: "fst (post ex_M (click 0 0 10) ex_db ex_sess) = JsonResponse body st"
    by (simp add: play_defs ex_defs)
  then have p: "post ex_M (click 0 0 10) ex_db ex_sess
      = (JsonResponse body st, fst (snd (post ex_M (click 0 0 10) ex_db ex_sess)),
         snd (snd (post ex_M (click 0 0 10) ex_db ex_sess)))"
    by (simp add: prod_eq_iff)
  have a: "s_game ex_sess = Some 1" and b: "s_player ex_sess = Some ''ann''"
    by (simp_all add: ex_defs)
  have o: "\<not> open_turn ex_game" by (simp add: ex_defs)
  show ?thesis
    using csrf_token_on_second_click_only [OF a b ex_game_found p] r o by simp
qed


section \<open>The best score in the rendering data of the start endpoint\<close>

lemma stop_keeps_keys:
  "map game_pk (games (stop_active_games_for_player p db)) = map game_pk (games db)"
  by (simp add: stop_active_games_for_player_def o_def if_distrib [of game_pk] cong: if_cong)

lemma Game_create_stop:
  assumes "Game_create p sd pf t (stop_active_games_for_player p db) = (g, db2)"
  shows "games db2
           = map (\<lambda>h. if player h = p \<and> active h then h\<lparr>active := False\<rparr> else h) (games db) @ [g]"
    and "player g = p" and "score g = 0" and "active g" and "\<not> finished g"
    and "game_pk g = next_pk (games db)"
    and "turns db2 = turns db"
proof -
  have g: "g = \<lparr>game_pk = next_pk (games (stop_active_games_for_player p db)), player = p,
                playfield = pf, seed = sd, kind = MEMORY, active = True, finished = False,
                score = 0, time = 0, created = t, open_turn = False, hold_card = EmptyDict\<rparr>"
    and d: "db2 = (stop_active_games_for_player p db)\<lparr>games := games (stop_active_games_for_player p db) @ [g]\<rparr>"
    using assms by (auto simp: Game_create_def Let_def)
  show "games db2
           = map (\<lambda>h. if player h = p \<and> active h then h\<lparr>active := False\<rparr> else h) (games db) @ [g]"
    by (simp add: d stop_active_games_for_player_def)
  show "player g = p" "score g = 0" "active g" "\<not> finished g"
    by (simp_all add: g)
  show "game_pk g = next_pk (games db)"
    using stop_keeps_keys [of p db] by (simp add: g next_pk_def)
  show "turns db2 = turns db"
    by (simp add: d stop_active_games_for_player_def)
qed

lemma sort_key_Nil_iff: "(sort_key f xs = []) = (xs = [])"
proof -
  have "length (sort_key f xs) = length xs" by simp
  then show ?thesis by (metis length_0_conv)
qed

lemma get_game_context_best:
  assumes "s_player sess = Some p"
  shows "if filter (\<lambda>h. player h = p \<and> 0 < score h) (games db) \<noteq> []
         then get_game_context E db sess dims = Inl AttributeError
         else \<exists>gd name. get_game_context E db sess [r, c] = Inr (gd, name) \<and> best_score gd = 0"
  by (simp add: get_game_context_def assms Let_def sort_key_Nil_iff)

lemma start_unfold:
  assumes "choice (USER_EMAILS E) (pick req) = Inr p"
    and "Game_create p (uuid_seed req) (generate_play_field E 2 3 (uuid_seed req))
           (start_now req) (stop_active_games_for_player p db) = (g, db2)"
  shows "start E req db sess =
     (case get_game_context E db2
             (sess\<lparr>s_player := Some p, s_game_id := Some (uuid_game_id req)\<rparr>
                \<lparr>s_game := None\<rparr>\<lparr>s_click := None\<rparr>\<lparr>s_game := Some (game_pk g)\<rparr>) [2, 3] of
        Inl e \<Rightarrow>
          (Inl e, db2,
           sess\<lparr>s_player := Some p, s_game_id := Some (uuid_game_id req)\<rparr>
                \<lparr>s_game := None\<rparr>\<lparr>s_click := None\<rparr>\<lparr>s_game := Some (game_pk g)\<rparr>)
      | Inr (gd, name) \<Rightarrow>
          (Inr \<lparr>ctx_player = p, ctx_csrf_token = start_csrf req,
                ctx_game_data = gd, ctx_game_name = name\<rparr>,
           db2,
           sess\<lparr>s_player := Some p, s_game_id := Some (uuid_game_id req)\<rparr>
                \<lparr>s_game := None\<rparr>\<lparr>s_click := None\<rparr>\<lparr>s_game := Some (game_pk g)\<rparr>))"
  by (simp add: start_def assms Let_def)

lemma stopped_positive_scores:
  assumes "games db2 = map (\<lambda>h. if player h = p \<and> active h then h\<lparr>active := False\<rparr> else h) (games db) @ [g]"
    and "score g = 0"
  shows "(filter (\<lambda>h. player h = q \<and> 0 < score h) (games db2) \<noteq> [])
           = (\<exists>h \<in> set (games db). player h = q \<and> 0 < score h)"
proof -
  define F :: "game \<Rightarrow> game" where "F = (\<lambda>h. if player h = p \<and> active h then h\<lparr>active := False\<rparr> else h)"
  have F: "player (F h) = player h" "score (F h) = score h" for h
    by (simp_all add: F_def)
  have s: "set (games db2) = F ` set (games db) \<union> {g}"
    by (simp add: assms(1) F_def)
  have "(\<exists>h \<in> set (games db2). player h = q \<and> 0 < score h)
          = (\<exists>h \<in> set (games db). player h = q \<and> 0 < score h)"
    unfolding s using F assms(2) by auto
  then show ?thesis by (simp add: filter_empty_conv)
qed


text \<open>
  Claim C6, which the code breaks. When the selected player has a game with a positive
  score, the start endpoint raises \<^verbatim>\<open>AttributeError\<close> (the best score is read as an
  attribute of the query, not of a row of it); otherwise the rendering data holds the best
  score 0.
\<close>

theorem start_best_score:
  assumes "choice (USER_EMAILS E) (pick req) = Inr p"
  shows "if \<exists>g \<in> set (games db). player g = p \<and> 0 < score g
         then fst (start E req db sess) = Inl AttributeError
         else \<exists>ctx. fst (start E req db sess) = Inr ctx \<and> best_score (ctx_game_data ctx) = 0"
proof -
  obtain g db2 where c: "Game_create p (uuid_seed req)
      (generate_play_field E 2 3 (uuid_seed req))
      (start_now req) (stop_active_games_for_player p db) = (g, db2)"
    by (cases "Game_create p (uuid_seed req)
      (generate_play_field E 2 3 (uuid_seed req))
      (start_now req) (stop_active_games_for_player p db)") auto
  note gs = Game_create_stop [OF c]
  define S where "S = sess\<lparr>s_player := Some p, s_game_id := Some (uuid_game_id req)\<rparr>
                \<lparr>s_game := None\<rparr>\<lparr>s_click := None\<rparr>\<lparr>s_game := Some (game_pk g)\<rparr>"
  have sp: "s_player S = Some p" by (simp add: S_def)
  note st = start_unfold [OF assms c, of sess, folded S_def]
  note f = stopped_positive_scores [OF gs(1) gs(3), of p]
  note ctx = get_game_context_best [OF sp, of db2 E "[2, 3]" 2 3, unfolded f]
  show ?thesis
  proof (cases "\<exists>h \<in> set (games db). player h = p \<and> 0 < score h")
    case True
    then have "get_game_context E db2 S [2, 3] = Inl AttributeError"
      using ctx by simp
    then show ?thesis using True by (simp add: st)
  next
    case False
    then have "\<exists>gd name. get_game_context E db2 S [2, 3] = Inr (gd, name) \<and> best_score gd = 0"
      using ctx by (simp only: if_False)
    then obtain gd name where "get_game_context E db2 S [2, 3] = Inr (gd, name)"
      and "best_score gd = 0"
      by blast
    then show ?thesis using False by (simp add: st)
  qed
qed



theorem start_best_score_witness:
  "fst (start ex_env ex_start ex_db6 no_session) = Inl AttributeError"
proof -
  have c: "choice (USER_EMAILS ex_env) (pick ex_start) = Inr ''ann''"
    by (simp add: choice_def ex_env_def ex_start_def)
  have "\<exists>g \<in> set (games ex_db6). player g = ''ann'' \<and> 0 < score g"
    by (simp add: ex_defs)
  then show ?thesis
    using start_best_score [OF c, of ex_db6 no_session] by simp
qed

section \<open>Turns and their keys\<close>

lemmas clash_defs = ex_game_b_def ex_sess_b_def ex_db2_def ex_miss_def ex_db_a_def ex_db_b1_def
  ex_turn_b_def ex_db_b2_def


lemma upto_11: "[1..11] = [1,2,3,4,5,6,7,8,9,10,11::int]" "[1..10] = [1,2,3,4,5,6,7,8,9,10::int]"
  by (simp_all add: upto.simps)

lemma ann_reach:
  "snd (play ex_M ann_rounds ex_db2 ex_sess) = (ex_db_a, ex_sess\<lparr>s_turn := Some 22\<rparr>)"
  by code_simp

lemma bob_first:
  "snd (post ex_M (click 0 0 5000) ex_db_a ex_sess_b) = (ex_db_b1, ex_sess_b)"
  by (simp add: play_defs ex_defs clash_defs upto_11)

lemma bob_second:
  "snd (post ex_M (click 1 0 5050) ex_db_b1 ex_sess_b) = (ex_db_b2, ex_sess_b\<lparr>s_turn := Some 22\<rparr>)"
  by (simp add: play_defs ex_defs clash_defs upto_11)

lemma game_row_round_db:
  "game_row (round_db sess gid g s1 s2 t db) (game_pk g) = Some (update_turn False EmptyDict g)"
  using game_row_saved [of "update_turn False EmptyDict g"] by (simp add: round_db_def)


text \<open>
  Claim C2, which the code breaks when the key it computes for the Turn is already in use.
  On an active, unfinished game that the play endpoint answers: a first click saves no Turn,
  saves the click as pending on the game and answers \<^verbatim>\<open>{success: true, click: [{row,
  column, card}]}\<close> with no match field; a second click saves one Turn, under the key
  \<open>turn_key\<close>, holding both clicks and the match flag, and clears the pending click. The
  save inserts a row only when no Turn has that key; otherwise it replaces the Turn that has
  it, and the number of Turn records stays as it was.
\<close>

theorem click_bookkeeping:
  assumes "s_game sess = Some gid" and "s_player sess = Some p"
    and "Game_get db gid p = Some g"
    and "post M req db sess = (JsonResponse body st, db', sess')"
  shows "if open_turn g
         then \<exists>t. turns db' = upsert turn_pk t (turns db)
                \<and> turn_pk t = turn_key sess gid \<and> turn_game t = gid
                \<and> length (meta t) = 2
                \<and> body ''click'' = Some (JClicks (meta t))
                \<and> body ''match'' = Some (JBool (is_match t))
                \<and> length (turns db')
                    = (if turn_key sess gid \<in> turn_pk ` set (turns db)
                       then length (turns db) else length (turns db) + 1)
                \<and> s_turn sess' = Some (turn_key sess gid + 1)
                \<and> (\<exists>g'. game_row db' gid = Some g' \<and> \<not> open_turn g' \<and> hold_card g' = EmptyDict)
         else turns db' = turns db \<and> sess' = sess \<and> body ''match'' = None \<and> st = 200
              \<and> (\<exists>r k cd. POST_click req = Some (Click r k)
                     \<and> get_card_id g (Click r k) = Inr cd
                     \<and> game_row db' gid = Some (g\<lparr>open_turn := True, hold_card := Click r k\<rparr>)
                     \<and> body = [''success'' \<mapsto> JBool True,
                                ''click'' \<mapsto> JClicks [\<lparr>row = r, column = k, card_id = cd\<rparr>]])"
proof (cases "open_turn g")
  case False
  note found = Game_get_Some [OF assms(3)]
  have "first_click req db sess g = (JsonResponse body st, db', sess')"
    using post_found [OF assms(1,2,3), of M req] assms(4) False by simp
  then obtain r k cd where a: "POST_click req = Some (Click r k)"
    "get_card_id g (Click r k) = Inr cd"
    "body = [''success'' \<mapsto> JBool True,
             ''click'' \<mapsto> JClicks [\<lparr>row = r, column = k, card_id = cd\<rparr>]]"
    "st = 200" "db' = game_save (update_turn True (Click r k) g) db" "sess' = sess"
    using first_click_answer by blast
  have row: "game_row db' gid = Some (g\<lparr>open_turn := True, hold_card := Click r k\<rparr>)"
    using game_row_saved [of "update_turn True (Click r k) g" db] found
    by (simp add: a(5)) (simp add: update_turn_def)
  have tr: "turns db' = turns db" by (simp add: a(5))
  have bm: "body ''match'' = None" by (simp add: a(3))
  have ex: "\<exists>r k cd. POST_click req = Some (Click r k)
                     \<and> get_card_id g (Click r k) = Inr cd
                     \<and> game_row db' gid = Some (g\<lparr>open_turn := True, hold_card := Click r k\<rparr>)
                     \<and> body = [''success'' \<mapsto> JBool True,
                                ''click'' \<mapsto> JClicks [\<lparr>row = r, column = k, card_id = cd\<rparr>]]"
    using a(1) a(2) row a(3) by blast
  have "turns db' = turns db \<and> sess' = sess \<and> body ''match'' = None \<and> st = 200
              \<and> (\<exists>r k cd. POST_click req = Some (Click r k)
                     \<and> get_card_id g (Click r k) = Inr cd
                     \<and> game_row db' gid = Some (g\<lparr>open_turn := True, hold_card := Click r k\<rparr>)
                     \<and> body = [''success'' \<mapsto> JBool True,
                                ''click'' \<mapsto> JClicks [\<lparr>row = r, column = k, card_id = cd\<rparr>]])"
    using tr a(6) bm a(4) ex by (intro conjI)
  then show ?thesis
    using False by (simp only: if_False)
next
  case True
  note found = Game_get_Some [OF assms(3)]
  define ctx0 where "ctx0 = [''success'' \<mapsto> JBool True] ++ aquire_csrf req"
  have sc: "second_click M req ctx0 db sess gid g = (JsonResponse body st, db', sess')"
    using post_found [OF assms(1,2,3), of M req] assms(4) True by (simp add: ctx0_def)
  then have f: "fst (second_click M req ctx0 db sess gid g) = JsonResponse body st"
    by simp
  obtain s1 s2 c b l where r: "reveal g (hold_card g) = Inr s1" "POST_click req = Some c"
    "reveal g c = Inr s2"
    and b: "game_completed (round_db sess gid g s1 s2 (now req) db)
         (update_turn False EmptyDict g) = Inr b"
    and l: "qs_last (game_turns (round_db sess gid g s1 s2 (now req) db)
         (update_turn False EmptyDict g)) = Some l"
    by (rule second_click_answer [OF f])
  define t where "t = new_turn sess gid g ([s1, s2], card_id s1 = card_id s2) (now req)"
  define db2 where "db2 = round_db sess gid g s1 s2 (now req) db"
  define g1 where "g1 = update_turn False EmptyDict g"
  define fg where "fg = final_game M db2 g1 l"
  define ctx1 where "ctx1 = ctx0 ++ [''click'' \<mapsto> JClicks [s1, s2],
                         ''match'' \<mapsto> JBool (card_id s1 = card_id s2)]"
  define ctx2 where "ctx2 = (if b then ctx1 ++ [''completed'' \<mapsto> JBool True,
      ''score'' \<mapsto> JNum (score fg)] else ctx1)"
  note eq = second_click_eq [OF r b l, of M "ctx0", folded db2_def g1_def, folded fg_def ctx1_def]
  have res_db: "finish_response ctx2 = JsonResponse body st
      \<and> db' = (if b then is_game_suspected M fg (game_save fg db2) else db2)
      \<and> s_turn sess' = Some (turn_key sess gid + 1)"
  proof (cases b)
    case True
    have "finish_response (ctx1 ++ [''completed'' \<mapsto> JBool True, ''score'' \<mapsto> JNum (score fg)])
            = JsonResponse body st"
      and "db' = is_game_suspected M fg (game_save fg db2)"
      and "sess' = sess\<lparr>s_turn := Some (turn_key sess gid + 1), s_game := None\<rparr>"
      using eq sc True by simp_all
    then show ?thesis using True by (simp add: ctx2_def)
  next
    case False
    have "finish_response ctx1 = JsonResponse body st" and "db' = db2"
      and "sess' = sess\<lparr>s_turn := Some (turn_key sess gid + 1)\<rparr>"
      using eq sc False by simp_all
    then show ?thesis using False by (simp add: ctx2_def)
  qed
  then have res: "finish_response ctx2 = JsonResponse body st"
    and db': "db' = (if b then is_game_suspected M fg (game_save fg db2) else db2)"
    and sess': "s_turn sess' = Some (turn_key sess gid + 1)"
    by simp_all
  have k: "ctx2 ''click'' = Some (JClicks [s1, s2])"
    "ctx2 ''match'' = Some (JBool (card_id s1 = card_id s2))"
    by (simp_all add: ctx2_def ctx1_def map_add_def)
  have bk: "body ''click'' = Some (JClicks [s1, s2])"
    "body ''match'' = Some (JBool (card_id s1 = card_id s2))"
    using finish_response_body(2) [OF res, of "''click''"]
      finish_response_body(2) [OF res, of "''match''"] k by simp_all
  have tu: "turns db' = upsert turn_pk t (turns db)"
    by (simp add: db' db2_def t_def)
  have tf: "turn_pk t = turn_key sess gid" "turn_game t = gid" "meta t = [s1, s2]"
    "is_match t = (card_id s1 = card_id s2)"
    using found by (simp_all add: t_def new_turn_def)
  have len: "length (turns db')
      = (if turn_key sess gid \<in> turn_pk ` set (turns db)
         then length (turns db) else length (turns db) + 1)"
    by (simp add: tu upsert_length tf(1))
  have pk: "game_pk fg = gid" "game_pk g1 = gid" "game_pk g = gid"
    using found by (simp_all add: fg_def g1_def)
  have row2: "game_row db2 gid = Some g1"
    using game_row_round_db [of sess gid g s1 s2 "now req" db] pk(3)
    by (simp add: db2_def g1_def)
  have rowf: "game_row (is_game_suspected M fg (game_save fg db2)) gid = Some fg"
    using game_row_saved [of fg db2] by (simp add: pk)
  have og: "\<not> open_turn g1" "hold_card g1 = EmptyDict" "\<not> open_turn fg" "hold_card fg = EmptyDict"
    by (simp_all add: fg_def g1_def final_game_def set_finished_def end_game_def update_turn_def)
  have row: "\<exists>g'. game_row db' gid = Some g' \<and> \<not> open_turn g' \<and> hold_card g' = EmptyDict"
    using row2 rowf og by (cases b) (simp_all add: db')
  have "turns db' = upsert turn_pk t (turns db)
                \<and> turn_pk t = turn_key sess gid \<and> turn_game t = gid
                \<and> length (meta t) = 2
                \<and> body ''click'' = Some (JClicks (meta t))
                \<and> body ''match'' = Some (JBool (is_match t))
                \<and> length (turns db')
                    = (if turn_key sess gid \<in> turn_pk ` set (turns db)
                       then length (turns db) else length (turns db) + 1)
                \<and> s_turn sess' = Some (turn_key sess gid + 1)
                \<and> (\<exists>g'. game_row db' gid = Some g' \<and> \<not> open_turn g' \<and> hold_card g' = EmptyDict)"
    using tu tf(1) tf(2) bk len sess' row unfolding tf(3) [symmetric] tf(4) [symmetric]
    by (intro conjI) (simp_all add: tf(3))
  then have "\<exists>t. turns db' = upsert turn_pk t (turns db)
                \<and> turn_pk t = turn_key sess gid \<and> turn_game t = gid
                \<and> length (meta t) = 2
                \<and> body ''click'' = Some (JClicks (meta t))
                \<and> body ''match'' = Some (JBool (is_match t))
                \<and> length (turns db')
                    = (if turn_key sess gid \<in> turn_pk ` set (turns db)
                       then length (turns db) else length (turns db) + 1)
                \<and> s_turn sess' = Some (turn_key sess gid + 1)
                \<and> (\<exists>g'. game_row db' gid = Some g' \<and> \<not> open_turn g' \<and> hold_card g' = EmptyDict)"
    by (rule exI [where x = t])
  then show ?thesis
    using True by (simp only: if_True)
qed


lemma bob_second_answered:
  "\<exists>body st. fst (post ex_M (click 1 0 5050) ex_db_b1 ex_sess_b) = JsonResponse body st"
  by (simp add: play_defs ex_defs clash_defs upto_11)

theorem click_bookkeeping_witness:
  "turn_key ex_sess_b 2 \<in> turn_pk ` set (turns ex_db_b1)
   \<and> length (turns (fst (snd (post ex_M (click 1 0 5050) ex_db_b1 ex_sess_b))))
       = length (turns ex_db_b1)"
proof -
  obtain body st where r: "fst (post ex_M (click 1 0 5050) ex_db_b1 ex_sess_b) = JsonResponse body st"
    using bob_second_answered by blast
  define db' where "db' = fst (snd (post ex_M (click 1 0 5050) ex_db_b1 ex_sess_b))"
  define sess' where "sess' = snd (snd (post ex_M (click 1 0 5050) ex_db_b1 ex_sess_b))"
  have p: "post ex_M (click 1 0 5050) ex_db_b1 ex_sess_b = (JsonResponse body st, db', sess')"
    using r by (simp add: db'_def sess'_def prod_eq_iff)
  have a: "s_game ex_sess_b = Some 2" and b: "s_player ex_sess_b = Some ''bob''"
    by (simp_all add: clash_defs)
  have c: "Game_get ex_db_b1 2 ''bob''
             = Some (ex_game_b\<lparr>open_turn := True, hold_card := Click 0 0\<rparr>)"
    by (simp add: Game_get_def clash_defs ex_defs)
  have m: "turn_key ex_sess_b 2 \<in> turn_pk ` set (turns ex_db_b1)"
    by (simp add: turn_key_def clash_defs upto_11)
  have "length (turns db') = length (turns ex_db_b1)"
    using click_bookkeeping [OF a b c p] m by auto
  then show ?thesis using m by (simp add: db'_def)
qed


text \<open>
  Claim C4, which the code breaks. The key \<^verbatim>\<open>game_id * 10 + counter\<close> is not unique across
  sessions: Ann's eleventh round on game 1 gets the key 21 (her session's counter), and the
  first round of Bob's fresh session on game 2 gets 2 * 10 + 1 = 21 as well; Bob's save
  replaces Ann's Turn, so that game 1 is left with ten turns and the Turn 21 belongs to
  game 2.
\<close>

theorem turn_keys_collide:
  "snd (play ex_M ann_rounds ex_db2 ex_sess) = (ex_db_a, ex_sess\<lparr>s_turn := Some 22\<rparr>)
   \<and> map turn_pk (game_turns ex_db_a ex_game) = [11, 12, 13, 14, 15, 16, 17, 18, 19, 20, 21]
   \<and> s_turn ex_sess_b = None \<and> turn_key ex_sess_b 2 = 21
   \<and> snd (play ex_M [click 0 0 5000, click 1 0 5050] ex_db_a ex_sess_b)
       = (ex_db_b2, ex_sess_b\<lparr>s_turn := Some 22\<rparr>)
   \<and> map turn_pk (game_turns ex_db_b2 ex_game) = [11, 12, 13, 14, 15, 16, 17, 18, 19, 20]
   \<and> map turn_pk (game_turns ex_db_b2 ex_game_b) = [21]"
proof -
  have 1: "snd (play ex_M [click 0 0 5000, click 1 0 5050] ex_db_a ex_sess_b)
       = (ex_db_b2, ex_sess_b\<lparr>s_turn := Some 22\<rparr>)"
    using bob_first bob_second
    by (simp add: prod_eq_iff split: prod.splits)
  have 2: "map turn_pk (game_turns ex_db_a ex_game) = [11, 12, 13, 14, 15, 16, 17, 18, 19, 20, 21]"
    "map turn_pk (game_turns ex_db_b2 ex_game) = [11, 12, 13, 14, 15, 16, 17, 18, 19, 20]"
    "map turn_pk (game_turns ex_db_b2 ex_game_b) = [21]"
    "s_turn ex_sess_b = None" "turn_key ex_sess_b 2 = 21"
    by (simp_all add: game_turns_def turn_key_def clash_defs ex_defs upto_11)
  show ?thesis using ann_reach 1 2 by simp
qed

section \<open>Finished games\<close>

lemma upsert_nth_other:
  "i < length xs \<Longrightarrow> key (xs ! i) \<noteq> key y \<Longrightarrow> upsert key y xs ! i = xs ! i"
proof (induction xs arbitrary: i)
  case Nil
  then show ?case by simp
next
  case (Cons x xs)
  then show ?case by (cases i) auto
qed

lemma upsert_nth_same:
  "distinct (map key xs) \<Longrightarrow> i < length xs \<Longrightarrow> key (xs ! i) = key y \<Longrightarrow> upsert key y xs ! i = y"
proof (induction xs arbitrary: i)
  case Nil
  then show ?case by simp
next
  case (Cons x xs)
  show ?case
  proof (cases i)
    case 0
    then show ?thesis using Cons.prems by simp
  next
    case (Suc j)
    then have "key x \<noteq> key y"
      using Cons.prems by (auto simp: image_iff) (metis nth_mem)
    then show ?thesis using Cons Suc by simp
  qed
qed

lemma distinct_key_unique:
  "distinct (map key xs) \<Longrightarrow> x \<in> set xs \<Longrightarrow> y \<in> set xs \<Longrightarrow> key x = key y \<Longrightarrow> x = y"
  by (simp add: distinct_map inj_on_def)

lemma first_click_games:
  "games (fst (snd (first_click req db sess g))) = games db
   \<or> (\<exists>c. games (fst (snd (first_click req db sess g)))
            = upsert game_pk (update_turn True c g) (games db))"
  by (auto simp: first_click_def Let_def game_save_def
      split: option.splits sum.splits payload.splits)

lemma close_game_games:
  "games (fst (snd (close_game M ctx db sess g))) = games db
   \<or> (\<exists>l. games (fst (snd (close_game M ctx db sess g)))
            = upsert game_pk (final_game M db g l) (games db))"
  by (auto simp: close_game_def Let_def final_game_def game_save_def timedelta_div_def
      split: option.splits sum.splits if_splits)

lemma advanced_update_turn [simp]: "advanced g (update_turn f c g)"
  by (simp add: advanced_def update_turn_def)

lemma advanced_final_game [simp]: "advanced g (final_game M db (update_turn f c g) l)"
  by (simp add: advanced_def final_game_def set_finished_def end_game_def update_turn_def)

lemma second_click_db:
  "fst (snd (second_click M req ctx db sess gid g)) = db
   \<or> (\<exists>s1 s2. fst (snd (second_click M req ctx db sess gid g))
                  = round_db sess gid g s1 s2 (now req) db
         \<or> (\<exists>ctx' sess'. fst (snd (second_click M req ctx db sess gid g))
                = fst (snd (close_game M ctx' (round_db sess gid g s1 s2 (now req) db) sess'
                              (update_turn False EmptyDict g)))))"
proof (cases "json_loads (hold_card g)")
  case (Inl e)
  then show ?thesis by (simp add: second_click_def)
next
  case c1: (Inr c1)
  show ?thesis
  proof (cases "POST_click req")
    case None
    then show ?thesis by (simp add: second_click_def c1)
  next
    case (Some raw)
    show ?thesis
    proof (cases "json_loads raw")
      case (Inl e)
      then show ?thesis by (simp add: second_click_def c1 Some)
    next
      case c2: (Inr c2)
      show ?thesis
      proof (cases "match g c1 c2")
        case (Inl e)
        then show ?thesis by (simp add: second_click_def c1 Some c2)
      next
        case (Inr gm)
        then obtain s1 s2 where gm: "gm = ([s1, s2], card_id s1 = card_id s2)"
          using match_Inr by blast
        define db2 where "db2 = round_db sess gid g s1 s2 (now req) db"
        define g1 where "g1 = update_turn False EmptyDict g"
        show ?thesis
        proof (cases "game_completed db2 g1")
          case (Inl e)
          note gc = Inl [unfolded db2_def g1_def round_db_def]
          have "fst (snd (second_click M req ctx db sess gid g)) = db2"
            using Inr by (simp add: second_click_def c1 Some c2 gm Let_def gc)
               (simp add: db2_def round_db_def)
          then show ?thesis unfolding db2_def by blast
        next
          case b: (Inr b)
          note gc = b [unfolded db2_def g1_def round_db_def]
          show ?thesis
          proof (cases b)
            case True
            have "\<exists>ctx' sess'. fst (snd (second_click M req ctx db sess gid g))
               = fst (snd (close_game M ctx' db2 sess' g1))"
              using Inr True
              by (simp add: second_click_def c1 Some c2 gm Let_def gc)
                 (auto simp: db2_def g1_def round_db_def)
            then show ?thesis unfolding db2_def g1_def by blast
          next
            case False
            have "fst (snd (second_click M req ctx db sess gid g)) = db2"
              using Inr False by (simp add: second_click_def c1 Some c2 gm Let_def gc)
                (simp add: db2_def round_db_def)
            then show ?thesis unfolding db2_def by blast
          qed
        qed
      qed
    qed
  qed
qed

lemma second_click_games:
  "games (fst (snd (second_click M req ctx db sess gid g))) = games db
   \<or> (\<exists>g'. advanced g g'
         \<and> games (fst (snd (second_click M req ctx db sess gid g))) = upsert game_pk g' (games db))"
proof -
  define g1 where "g1 = update_turn False EmptyDict g"
  consider (same) "fst (snd (second_click M req ctx db sess gid g)) = db"
    | (round) s1 s2 where "fst (snd (second_click M req ctx db sess gid g))
                  = round_db sess gid g s1 s2 (now req) db"
    | (closed) s1 s2 ctx' sess' where "fst (snd (second_click M req ctx db sess gid g))
                = fst (snd (close_game M ctx' (round_db sess gid g s1 s2 (now req) db) sess' g1))"
    using second_click_db [of M req ctx db sess gid g] unfolding g1_def by blast
  then show ?thesis
  proof cases
    case same
    then show ?thesis by simp
  next
    case round
    have "advanced g g1
        \<and> games (fst (snd (second_click M req ctx db sess gid g))) = upsert game_pk g1 (games db)"
      using round by (simp add: g1_def)
    then show ?thesis by blast
  next
    case closed
    define db2 where "db2 = round_db sess gid g s1 s2 (now req) db"
    have g2: "games db2 = upsert game_pk g1 (games db)"
      by (simp add: db2_def g1_def)
    consider "games (fst (snd (close_game M ctx' db2 sess' g1))) = games db2"
      | l where "games (fst (snd (close_game M ctx' db2 sess' g1)))
            = upsert game_pk (final_game M db2 g1 l) (games db2)"
      using close_game_games [of M ctx' db2 sess' g1] by blast
    then show ?thesis
    proof cases
      case 1
      have "advanced g g1
        \<and> games (fst (snd (second_click M req ctx db sess gid g))) = upsert game_pk g1 (games db)"
        using 1 closed g2 by (simp add: g1_def db2_def)
      then show ?thesis by blast
    next
      case 2
      have a: "advanced g (final_game M db2 g1 l)" by (simp add: g1_def)
      have "upsert game_pk (final_game M db2 g1 l) (games db2)
              = upsert game_pk (final_game M db2 g1 l) (games db)"
        unfolding g2 by (rule upsert_upsert) (simp add: g1_def)
      then have "advanced g (final_game M db2 g1 l)
        \<and> games (fst (snd (second_click M req ctx db sess gid g)))
            = upsert game_pk (final_game M db2 g1 l) (games db)"
        using 2 closed a by (simp add: db2_def)
      then show ?thesis by blast
    qed
  qed
qed

lemma post_games:
  "games (fst (snd (post M req db sess))) = games db
   \<or> (\<exists>gid p g g'. s_game sess = Some gid \<and> s_player sess = Some p
         \<and> Game_get db gid p = Some g \<and> advanced g g'
         \<and> games (fst (snd (post M req db sess))) = upsert game_pk g' (games db))"
proof (cases "s_game sess")
  case None
  then show ?thesis by (simp add: post_def)
next
  case gid: (Some gid)
  show ?thesis
  proof (cases "s_player sess")
    case None
    then show ?thesis by (simp add: post_def gid)
  next
    case p: (Some p)
    show ?thesis
    proof (cases "Game_get db gid p")
      case None
      then show ?thesis by (simp add: post_def gid p)
    next
      case (Some g)
      note eq = post_found [OF gid p Some, of M req]
      show ?thesis
      proof (cases "open_turn g")
        case False
        then have e: "post M req db sess = first_click req db sess g"
          by (simp add: eq)
        consider "games (fst (snd (first_click req db sess g))) = games db"
          | c where "games (fst (snd (first_click req db sess g)))
                       = upsert game_pk (update_turn True c g) (games db)"
          using first_click_games [of req db sess g] by blast
        then show ?thesis
        proof cases
          case 1
          then show ?thesis by (simp add: e)
        next
          case 2
          then have "s_game sess = Some gid \<and> s_player sess = Some p
            \<and> Game_get db gid p = Some g \<and> advanced g (update_turn True c g)
            \<and> games (fst (snd (post M req db sess)))
                = upsert game_pk (update_turn True c g) (games db)"
            using gid p Some by (simp add: e)
          then show ?thesis by blast
        qed
      next
        case True
        then have e: "post M req db sess
            = second_click M req ([''success'' \<mapsto> JBool True] ++ aquire_csrf req) db sess gid g"
          by (simp add: eq)
        consider "games (fst (snd (post M req db sess))) = games db"
          | g' where "advanced g g'"
              "games (fst (snd (post M req db sess))) = upsert game_pk g' (games db)"
          using second_click_games
            [of M req "[''success'' \<mapsto> JBool True] ++ aquire_csrf req" db sess gid g]
          unfolding e by blast
        then show ?thesis
        proof cases
          case 1
          then show ?thesis by simp
        next
          case 2
          then have "s_game sess = Some gid \<and> s_player sess = Some p
            \<and> Game_get db gid p = Some g \<and> advanced g g'
            \<and> games (fst (snd (post M req db sess))) = upsert game_pk g' (games db)"
            using gid p Some by simp
          then show ?thesis by blast
        qed
      qed
    qed
  qed
qed

lemma post_step_rows:
  assumes "distinct (map game_pk (games db))"
  shows "map game_pk (games (fst (snd (post M req db sess)))) = map game_pk (games db)"
    and "i < length (games db) \<Longrightarrow> finished (games db ! i)
           \<Longrightarrow> games (fst (snd (post M req db sess))) ! i = games db ! i"
    and "i < length (games db)
           \<Longrightarrow> score (games (fst (snd (post M req db sess))) ! i) \<noteq> score (games db ! i)
               \<or> time (games (fst (snd (post M req db sess))) ! i) \<noteq> time (games db ! i)
           \<Longrightarrow> \<not> finished (games db ! i) \<and> finished (games (fst (snd (post M req db sess))) ! i)"
proof -
  define db' where "db' = fst (snd (post M req db sess))"
  consider (same) "games db' = games db"
    | (saved) gid p g g' where "Game_get db gid p = Some g" "advanced g g'"
        "games db' = upsert game_pk g' (games db)"
    using post_games [of M req db sess] unfolding db'_def by blast
  then have "map game_pk (games db') = map game_pk (games db)
     \<and> (i < length (games db) \<longrightarrow> finished (games db ! i) \<longrightarrow> games db' ! i = games db ! i)
     \<and> (i < length (games db) \<longrightarrow>
          score (games db' ! i) \<noteq> score (games db ! i) \<or> time (games db' ! i) \<noteq> time (games db ! i)
          \<longrightarrow> \<not> finished (games db ! i) \<and> finished (games db' ! i))"
  proof cases
    case same
    then show ?thesis by simp
  next
    case saved
    note found = Game_get_Some [OF saved(1)]
    have pk: "game_pk g' = game_pk g" using saved(2) by (simp add: advanced_def)
    have mem: "game_pk g' \<in> set (map game_pk (games db))"
      using found pk by (simp add: image_iff) blast
    have keys: "map game_pk (games db') = map game_pk (games db)"
      using mem by (simp add: saved(3) upsert_keys)
    have other: "games db' ! i = games db ! i"
      if "i < length (games db)" "game_pk (games db ! i) \<noteq> game_pk g'"
      using that by (simp add: saved(3) upsert_nth_other)
    have this_row: "games db ! i = g \<and> games db' ! i = g'"
      if "i < length (games db)" "game_pk (games db ! i) = game_pk g'"
    proof -
      have "games db ! i \<in> set (games db)" using that(1) by simp
      then have "games db ! i = g"
        using distinct_key_unique [OF assms _ _ that(2) [unfolded pk]] found by blast
      moreover have "games db' ! i = g'"
        using upsert_nth_same [OF assms that(1) that(2)] by (simp add: saved(3))
      ultimately show ?thesis by simp
    qed
    have fin: "games db' ! i = games db ! i" if "i < length (games db)" "finished (games db ! i)"
    proof (cases "game_pk (games db ! i) = game_pk g'")
      case True
      then have "games db ! i = g" using this_row that(1) by blast
      then show ?thesis using that(2) found by simp
    next
      case False
      then show ?thesis using other that(1) by blast
    qed
    have chg: "\<not> finished (games db ! i) \<and> finished (games db' ! i)"
      if "i < length (games db)"
        "score (games db' ! i) \<noteq> score (games db ! i) \<or> time (games db' ! i) \<noteq> time (games db ! i)"
    proof (cases "game_pk (games db ! i) = game_pk g'")
      case True
      then have r: "games db ! i = g" "games db' ! i = g'" using this_row that(1) by blast+
      then have "finished g'" using that(2) saved(2) by (auto simp: advanced_def)
      then show ?thesis using r found by simp
    next
      case False
      then have "games db' ! i = games db ! i" using other that(1) by blast
      then show ?thesis using that(2) by simp
    qed
    show ?thesis using keys fin chg by blast
  qed
  then show "map game_pk (games (fst (snd (post M req db sess)))) = map game_pk (games db)"
    and "i < length (games db) \<Longrightarrow> finished (games db ! i)
           \<Longrightarrow> games (fst (snd (post M req db sess))) ! i = games db ! i"
    and "i < length (games db)
           \<Longrightarrow> score (games (fst (snd (post M req db sess))) ! i) \<noteq> score (games db ! i)
               \<or> time (games (fst (snd (post M req db sess))) ! i) \<noteq> time (games db ! i)
           \<Longrightarrow> \<not> finished (games db ! i) \<and> finished (games (fst (snd (post M req db sess))) ! i)"
    unfolding db'_def by blast+
qed

lemma posts_rows:
  assumes "distinct (map game_pk (games db))"
  shows "map game_pk (games (posts M rs db)) = map game_pk (games db)
     \<and> (\<forall>i < length (games db). finished (games db ! i) \<longrightarrow> games (posts M rs db) ! i = games db ! i)"
  using assms
proof (induction rs arbitrary: db)
  case Nil
  then show ?case by simp
next
  case (Cons r rs)
  obtain req sess where r: "r = (req, sess)" by (cases r)
  define db1 where "db1 = fst (snd (post M req db sess))"
  have k: "map game_pk (games db1) = map game_pk (games db)"
    unfolding db1_def by (rule post_step_rows(1) [OF Cons.prems])
  then have d: "distinct (map game_pk (games db1))" using Cons.prems by simp
  have len: "length (games db1) = length (games db)"
    using k by (metis length_map)
  note ih = Cons.IH [OF d]
  have "games (posts M rs db1) ! i = games db ! i"
    if "i < length (games db)" "finished (games db ! i)" for i
  proof -
    have e: "games db1 ! i = games db ! i"
      unfolding db1_def by (rule post_step_rows(2) [OF Cons.prems that])
    then have "finished (games db1 ! i)" using that(2) by simp
    then have "games (posts M rs db1) ! i = games db1 ! i"
      using ih that(1) len by simp
    then show ?thesis using e by simp
  qed
  then show ?case using ih k by (simp add: r db1_def)
qed


text \<open>The closing branch either saves nothing or saves the final game.\<close>

lemma close_game_db:
  "fst (snd (close_game M ctx db sess g)) = db
   \<or> (\<exists>l. qs_last (game_turns db g) = Some l
        \<and> fst (snd (close_game M ctx db sess g))
            = is_game_suspected M (final_game M db g l) (game_save (final_game M db g l) db))"
  by (auto simp: close_game_def Let_def final_game_def timedelta_div_def
      split: option.splits sum.splits if_splits)

lemma final_game_computed:
  assumes "qs_last (game_turns db2 (update_turn False EmptyDict g)) = Some l"
    and "turns db' = turns db2"
  shows "computed_at_completion M db' g (final_game M db2 (update_turn False EmptyDict g) l)"
proof -
  have gt: "game_turns db' g = game_turns db2 (update_turn False EmptyDict g)"
    using assms(2) by (simp add: game_turns_def)
  have cr: "created (update_turn False EmptyDict g) = created g"
    by (simp add: update_turn_def)
  show ?thesis
    using assms(1)
    by (simp add: computed_at_completion_def gt final_game_def set_finished_def end_game_def cr)
qed

lemma second_click_saved:
  assumes "db' = fst (snd (second_click M req ctx db sess gid g))"
  shows "games db' = games db
     \<or> (\<exists>g'. games db' = upsert game_pk g' (games db) \<and> game_pk g' = game_pk g
          \<and> ((score g' = score g \<and> time g' = time g \<and> finished g' = finished g)
              \<or> (finished g' \<and> \<not> active g' \<and> computed_at_completion M db' g g')))"
proof -
  define g1 where "g1 = update_turn False EmptyDict g"
  have keep: "game_pk g1 = game_pk g \<and> score g1 = score g \<and> time g1 = time g
                \<and> finished g1 = finished g"
    by (simp add: g1_def update_turn_def)
  consider (same) "db' = db"
    | (round) s1 s2 where "db' = round_db sess gid g s1 s2 (now req) db"
    | (closed) s1 s2 ctx' sess' where
        "db' = fst (snd (close_game M ctx' (round_db sess gid g s1 s2 (now req) db) sess' g1))"
    using second_click_db [of M req ctx db sess gid g] unfolding g1_def assms by blast
  then show ?thesis
  proof cases
    case same
    then show ?thesis by simp
  next
    case round
    have "games db' = upsert game_pk g1 (games db) \<and> game_pk g1 = game_pk g
          \<and> ((score g1 = score g \<and> time g1 = time g \<and> finished g1 = finished g)
              \<or> (finished g1 \<and> \<not> active g1 \<and> computed_at_completion M db' g g1))"
      using round keep by (simp add: g1_def)
    then show ?thesis by blast
  next
    case closed
    define db2 where "db2 = round_db sess gid g s1 s2 (now req) db"
    have g2: "games db2 = upsert game_pk g1 (games db)"
      by (simp add: db2_def g1_def)
    consider (unsaved) "db' = db2"
      | (saved) l where "qs_last (game_turns db2 g1) = Some l"
          "db' = is_game_suspected M (final_game M db2 g1 l) (game_save (final_game M db2 g1 l) db2)"
      using close_game_db [of M ctx' db2 sess' g1] closed unfolding db2_def by blast
    then show ?thesis
    proof cases
      case unsaved
      have "games db' = upsert game_pk g1 (games db) \<and> game_pk g1 = game_pk g
          \<and> ((score g1 = score g \<and> time g1 = time g \<and> finished g1 = finished g)
              \<or> (finished g1 \<and> \<not> active g1 \<and> computed_at_completion M db' g g1))"
        using unsaved g2 keep by simp
      then show ?thesis by blast
    next
      case saved
      define fg where "fg = final_game M db2 g1 l"
      have pk: "game_pk fg = game_pk g" by (simp add: fg_def g1_def)
      have "upsert game_pk fg (games db2) = upsert game_pk fg (games db)"
        unfolding g2 by (rule upsert_upsert) (simp add: fg_def)
      then have gs: "games db' = upsert game_pk fg (games db)"
        by (simp add: saved(2) fg_def game_save_def)
      have tr: "turns db' = turns db2"
        by (simp add: saved(2))
      have comp: "computed_at_completion M db' g fg"
        unfolding fg_def g1_def
        by (rule final_game_computed [OF saved(1) [unfolded g1_def] tr])
      have fin: "finished fg" "\<not> active fg" by (simp_all add: fg_def)
      have "games db' = upsert game_pk fg (games db) \<and> game_pk fg = game_pk g
          \<and> ((score fg = score g \<and> time fg = time g \<and> finished fg = finished g)
              \<or> (finished fg \<and> \<not> active fg \<and> computed_at_completion M db' g fg))"
        using gs pk fin comp by simp
      then show ?thesis by blast
    qed
  qed
qed

lemma post_saved:
  assumes "db' = fst (snd (post M req db sess))"
  shows "games db' = games db
     \<or> (\<exists>gid p g g'. Game_get db gid p = Some g
          \<and> games db' = upsert game_pk g' (games db) \<and> game_pk g' = game_pk g
          \<and> ((score g' = score g \<and> time g' = time g \<and> finished g' = finished g)
              \<or> (finished g' \<and> \<not> active g' \<and> computed_at_completion M db' g g')))"
proof (cases "s_game sess")
  case None
  then show ?thesis by (simp add: assms post_def)
next
  case gid: (Some gid)
  show ?thesis
  proof (cases "s_player sess")
    case None
    then show ?thesis by (simp add: assms post_def gid)
  next
    case p: (Some p)
    show ?thesis
    proof (cases "Game_get db gid p")
      case None
      then show ?thesis by (simp add: assms post_def gid p)
    next
      case (Some g)
      note eq = post_found [OF gid p Some, of M req]
      show ?thesis
      proof (cases "open_turn g")
        case False
        then have e: "db' = fst (snd (first_click req db sess g))"
          by (simp add: assms eq)
        consider "games db' = games db"
          | c where "games db' = upsert game_pk (update_turn True c g) (games db)"
          using first_click_games [of req db sess g] unfolding e by blast
        then show ?thesis
        proof cases
          case 1
          then show ?thesis by simp
        next
          case 2
          define g' where "g' = update_turn True c g"
          have "Game_get db gid p = Some g
            \<and> games db' = upsert game_pk g' (games db) \<and> game_pk g' = game_pk g
            \<and> ((score g' = score g \<and> time g' = time g \<and> finished g' = finished g)
                \<or> (finished g' \<and> \<not> active g' \<and> computed_at_completion M db' g g'))"
            using 2 Some by (simp add: g'_def update_turn_def)
          then show ?thesis by blast
        qed
      next
        case True
        then have e: "db' = fst (snd (second_click M req
                         ([''success'' \<mapsto> JBool True] ++ aquire_csrf req) db sess gid g))"
          by (simp add: assms eq)
        consider "games db' = games db"
          | g' where "games db' = upsert game_pk g' (games db)" "game_pk g' = game_pk g"
              "(score g' = score g \<and> time g' = time g \<and> finished g' = finished g)
                \<or> (finished g' \<and> \<not> active g' \<and> computed_at_completion M db' g g')"
          using second_click_saved [OF e] by blast
        then show ?thesis
        proof cases
          case 1
          then show ?thesis by simp
        next
          case 2
          then have "Game_get db gid p = Some g
            \<and> games db' = upsert game_pk g' (games db) \<and> game_pk g' = game_pk g
            \<and> ((score g' = score g \<and> time g' = time g \<and> finished g' = finished g)
                \<or> (finished g' \<and> \<not> active g' \<and> computed_at_completion M db' g g'))"
            using Some by simp
          then show ?thesis by blast
        qed
      qed
    qed
  qed
qed

text \<open>With unique keys, a request changes the score, the seconds per turn or the finished
  flag of a row only by closing the game of that row.\<close>

lemma post_step_computed:
  assumes "distinct (map game_pk (games db))" and "db' = fst (snd (post M req db sess))"
    and "i < length (games db)"
    and "score (games db' ! i) \<noteq> score (games db ! i)
         \<or> time (games db' ! i) \<noteq> time (games db ! i)
         \<or> finished (games db' ! i) \<noteq> finished (games db ! i)"
  shows "\<not> finished (games db ! i) \<and> finished (games db' ! i) \<and> \<not> active (games db' ! i)
     \<and> computed_at_completion M db' (games db ! i) (games db' ! i)"
proof -
  consider (same) "games db' = games db"
    | (saved) gid p g g' where "Game_get db gid p = Some g"
        "games db' = upsert game_pk g' (games db)" "game_pk g' = game_pk g"
        "(score g' = score g \<and> time g' = time g \<and> finished g' = finished g)
          \<or> (finished g' \<and> \<not> active g' \<and> computed_at_completion M db' g g')"
    using post_saved [OF assms(2)] by blast
  then show ?thesis
  proof cases
    case same
    then show ?thesis using assms(4) by simp
  next
    case saved
    note found = Game_get_Some [OF saved(1)]
    show ?thesis
    proof (cases "game_pk (games db ! i) = game_pk g'")
      case False
      then have "games db' ! i = games db ! i"
        using assms(3) by (simp add: saved(2) upsert_nth_other)
      then show ?thesis using assms(4) by simp
    next
      case True
      have "games db ! i \<in> set (games db)" using assms(3) by simp
      then have r: "games db ! i = g"
        using distinct_key_unique [OF assms(1) _ _ True [unfolded saved(3)]] found by blast
      have r': "games db' ! i = g'"
        using upsert_nth_same [OF assms(1) assms(3) True] by (simp add: saved(2))
      have "finished g' \<and> \<not> active g' \<and> computed_at_completion M db' g g'"
        using saved(4) assms(4) by (auto simp: r r')
      then show ?thesis using found by (simp add: r r')
    qed
  qed
qed

text \<open>
  Claim C8, on the rows of the Game table and with unique game keys. No later request
  changes a finished game: whatever requests to the play endpoint follow, from whatever
  sessions, a row that is finished stays as it is. The score and the seconds per turn are
  written in the closing branch and nowhere else: a request changes the score, the seconds
  per turn or the finished flag of a row only by taking that row from unfinished to finished
  and inactive, and the row then holds the score and the seconds per turn that this request
  computed (\<open>computed_at_completion\<close>). And the closing branch does write them: when the
  play endpoint answers that the game is complete, the row of that game is finished and
  inactive and holds the score and the seconds per turn that this request computed. The rows
  of the Turn table are not part of the statement (see the turn keys above).
\<close>

theorem finished_games_are_final:
  assumes "distinct (map game_pk (games db))" and "db1 = fst (snd (post M req db sess))"
    and "i < length (games db)"
  shows "(finished (games db1 ! i) \<longrightarrow> games (posts M rs db1) ! i = games db1 ! i)
       \<and> (score (games db1 ! i) \<noteq> score (games db ! i)
            \<or> time (games db1 ! i) \<noteq> time (games db ! i)
            \<or> finished (games db1 ! i) \<noteq> finished (games db ! i)
          \<longrightarrow> \<not> finished (games db ! i) \<and> finished (games db1 ! i)
              \<and> \<not> active (games db1 ! i)
              \<and> computed_at_completion M db1 (games db ! i) (games db1 ! i))
       \<and> (s_game sess = Some gid \<and> s_player sess = Some p \<and> Game_get db gid p = Some g
            \<and> fst (post M req db sess) = JsonResponse body st
            \<and> body ''completed'' = Some (JBool True)
          \<longrightarrow> (\<exists>g'. game_row db1 gid = Some g' \<and> finished g' \<and> \<not> active g'
                 \<and> computed_at_completion M db1 g g'))"
proof -
  have k: "map game_pk (games db1) = map game_pk (games db)"
    unfolding assms(2) by (rule post_step_rows(1) [OF assms(1)])
  then have d1: "distinct (map game_pk (games db1))" using assms(1) by simp
  have "length (games db1) = length (games db)"
    using k by (metis length_map)
  then have i1: "i < length (games db1)" using assms(3) by simp
  have A: "finished (games db1 ! i) \<longrightarrow> games (posts M rs db1) ! i = games db1 ! i"
    using posts_rows [OF d1, of M rs] i1 by blast
  have B: "score (games db1 ! i) \<noteq> score (games db ! i)
            \<or> time (games db1 ! i) \<noteq> time (games db ! i)
            \<or> finished (games db1 ! i) \<noteq> finished (games db ! i)
          \<longrightarrow> \<not> finished (games db ! i) \<and> finished (games db1 ! i)
              \<and> \<not> active (games db1 ! i)
              \<and> computed_at_completion M db1 (games db ! i) (games db1 ! i)"
    using post_step_computed [OF assms(1) assms(2) assms(3)] by blast
  have D: "\<exists>g'. game_row db1 gid = Some g' \<and> finished g' \<and> \<not> active g'
                 \<and> computed_at_completion M db1 g g'"
    if h: "s_game sess = Some gid" "s_player sess = Some p" "Game_get db gid p = Some g"
      "fst (post M req db sess) = JsonResponse body st" "body ''completed'' = Some (JBool True)"
  proof -
    have pe: "post M req db sess = (JsonResponse body st, db1, snd (snd (post M req db sess)))"
      using h(4) by (simp add: assms(2) prod_eq_iff)
    obtain g' l where r: "game_row db1 gid = Some g'" "qs_last (game_turns db1 g) = Some l"
      "finished g'" "\<not> active g'"
      "score g' = calculate_score M (update_turn False EmptyDict g) (game_turns db1 g)"
      "time g' = total_seconds
                 (divide_and_round (turn_created l - created g)
                    (int (length (game_turns db1 g))))"
      using post_completed_row [OF h(1) h(2) h(3) pe h(5)] by blast
    have "computed_at_completion M db1 g g'"
      using r(2) r(5) r(6) by (simp add: computed_at_completion_def)
    then have "game_row db1 gid = Some g' \<and> finished g' \<and> \<not> active g'
                 \<and> computed_at_completion M db1 g g'"
      using r(1) r(3) r(4) by simp
    then show ?thesis by (rule exI [where x = g'])
  qed
  show ?thesis using A B D by blast
qed

theorem finished_games_are_final_witness:
  "fst (snd (post ex_M (click 1 2 1000001) ex_db5 ex_sess5)) = ex_db6
   \<and> games ex_db5 ! 0 = ex_game5 \<and> \<not> finished ex_game5
   \<and> games ex_db6 ! 0 = ex_game6 \<and> finished ex_game6 \<and> \<not> active ex_game6
   \<and> computed_at_completion ex_M ex_db6 ex_game5 ex_game6
   \<and> (\<exists>g'. game_row ex_db6 1 = Some g' \<and> finished g' \<and> \<not> active g'
          \<and> computed_at_completion ex_M ex_db6 ex_game5 g')
   \<and> games (posts ex_M [(click 0 0 2000000, ex_sess5),
                         (click 1 0 2000010, ex_sess5\<lparr>s_game := None\<rparr>)] ex_db6) ! 0
       = ex_game6"
proof -
  define rs where "rs = [(click 0 0 2000000, ex_sess5),
                         (click 1 0 2000010, ex_sess5\<lparr>s_game := None\<rparr>)]"
  have d: "distinct (map game_pk (games ex_db5))" and i: "0 < length (games ex_db5)"
    by (simp_all add: ex_defs)
  have e: "ex_db6 = fst (snd (post ex_M (click 1 2 1000001) ex_db5 ex_sess5))"
    using ex_last_click by simp
  obtain body st where r: "fst (post ex_M (click 1 2 1000001) ex_db5 ex_sess5) = JsonResponse body st"
    and comp: "body ''completed'' = Some (JBool True)"
    using ex_last_click_completed by auto
  have a: "s_game ex_sess5 = Some 1" and b: "s_player ex_sess5 = Some ''ann''"
    by (simp_all add: ex_defs)
  have c: "Game_get ex_db5 1 ''ann'' = Some ex_game5"
    by (simp add: ex_game5_def Game_get_def ex_defs)
  have rows: "games ex_db5 ! 0 = ex_game5" "games ex_db6 ! 0 = ex_game6"
    by (simp_all add: ex_game5_def ex_game6_def ex_defs)
  have f: "\<not> finished ex_game5" "finished ex_game6" "\<not> active ex_game6"
    "score ex_game6 \<noteq> score ex_game5"
    by (simp_all add: ex_game5_def ex_game6_def ex_defs)
  note t = finished_games_are_final
    [OF d e i, where rs = rs and gid = 1 and p = "''ann''" and g = ex_game5
       and body = body and st = st, unfolded rows]
  have 1: "games (posts ex_M rs ex_db6) ! 0 = ex_game6"
    using t f(2) by blast
  have 2: "computed_at_completion ex_M ex_db6 ex_game5 ex_game6"
    using t f(4) by blast
  have 3: "\<exists>g'. game_row ex_db6 1 = Some g' \<and> finished g' \<and> \<not> active g'
          \<and> computed_at_completion ex_M ex_db6 ex_game5 g'"
    using t a b c r comp by blast
  show ?thesis
    using e [symmetric] rows f(1) f(2) f(3) 2 3 1 unfolding rs_def by (intro conjI)
qed

section \<open>One live game per player\<close>

lemma one_live_game_iff: "one_live_game db = (\<forall>p. length (live_games db p) \<le> 1)"
proof
  assume a: "one_live_game db"
  show "\<forall>p. length (live_games db p) \<le> 1"
  proof
    fix p
    show "length (live_games db p) \<le> 1"
    proof (cases "p \<in> player ` set (games db)")
      case True
      then show ?thesis using a by (auto simp: one_live_game_def list_all_iff)
    next
      case False
      then have "live_games db p = []"
        by (auto simp: live_games_def filter_empty_conv)
      then show ?thesis by simp
    qed
  qed
next
  assume "\<forall>p. length (live_games db p) \<le> 1"
  then show "one_live_game db" by (simp add: one_live_game_def list_all_iff)
qed

lemma upsert_distinct: "distinct (map key xs) \<Longrightarrow> distinct (map key (upsert key x xs))"
  by (simp add: upsert_keys)

lemma upsert_filter_le:
  "distinct (map key xs) \<Longrightarrow> g \<in> set xs \<Longrightarrow> key g' = key g \<Longrightarrow> (P g' \<longrightarrow> P g)
     \<Longrightarrow> length (filter P (upsert key g' xs)) \<le> length (filter P xs)"
proof (induction xs)
  case Nil
  then show ?case by simp
next
  case (Cons x xs)
  show ?case
  proof (cases "key x = key g'")
    case True
    then have "x = g"
      using Cons.prems distinct_key_unique [of key "x # xs" x g] by simp
    then show ?thesis using True Cons.prems(4) by simp
  next
    case False
    then have "g \<in> set xs" using Cons.prems by auto
    then have "length (filter P (upsert key g' xs)) \<le> length (filter P xs)"
      using Cons by simp
    then show ?thesis using False by simp
  qed
qed

lemma close_game_turns: "turns (fst (snd (close_game M ctx db sess g))) = turns db"
  by (simp add: close_game_def Let_def split: option.splits sum.splits)

lemma first_click_turns: "turns (fst (snd (first_click req db sess g))) = turns db"
  by (simp add: first_click_def Let_def split: option.splits sum.splits payload.splits)

lemma post_turns:
  "turns (fst (snd (post M req db sess))) = turns db
   \<or> (\<exists>t. turns (fst (snd (post M req db sess))) = upsert turn_pk t (turns db))"
proof (cases "s_game sess")
  case None
  then show ?thesis by (simp add: post_def)
next
  case gid: (Some gid)
  show ?thesis
  proof (cases "s_player sess")
    case None
    then show ?thesis by (simp add: post_def gid)
  next
    case p: (Some p)
    show ?thesis
    proof (cases "Game_get db gid p")
      case None
      then show ?thesis by (simp add: post_def gid p)
    next
      case (Some g)
      note eq = post_found [OF gid p Some, of M req]
      show ?thesis
      proof (cases "open_turn g")
        case False
        then show ?thesis by (simp add: eq first_click_turns)
      next
        case True
        define ctx where "ctx = [''success'' \<mapsto> JBool True] ++ aquire_csrf req"
        have e: "post M req db sess = second_click M req ctx db sess gid g"
          using True by (simp add: eq ctx_def)
        consider "fst (snd (second_click M req ctx db sess gid g)) = db"
          | s1 s2 where "fst (snd (second_click M req ctx db sess gid g))
                  = round_db sess gid g s1 s2 (now req) db"
          | s1 s2 ctx' sess' where "fst (snd (second_click M req ctx db sess gid g))
                = fst (snd (close_game M ctx' (round_db sess gid g s1 s2 (now req) db) sess'
                              (update_turn False EmptyDict g)))"
          using second_click_db [of M req ctx db sess gid g] by blast
        then show ?thesis
        proof cases
          case 1
          then show ?thesis by (simp add: e)
        next
          case 2
          then have "turns (fst (snd (post M req db sess)))
             = upsert turn_pk (new_turn sess gid g ([s1, s2], card_id s1 = card_id s2) (now req))
                 (turns db)"
            by (simp add: e)
          then show ?thesis by blast
        next
          case 3
          then have "turns (fst (snd (post M req db sess)))
             = upsert turn_pk (new_turn sess gid g ([s1, s2], card_id s1 = card_id s2) (now req))
                 (turns db)"
            by (simp add: e close_game_turns)
          then show ?thesis by blast
        qed
      qed
    qed
  qed
qed

lemma post_unique_keys:
  assumes "unique_keys db"
  shows "unique_keys (fst (snd (post M req db sess)))"
proof -
  have g: "distinct (map game_pk (games (fst (snd (post M req db sess)))))"
    using post_step_rows(1) [of db M req sess] assms by (simp add: unique_keys_def)
  have t: "distinct (map turn_pk (turns (fst (snd (post M req db sess)))))"
    using post_turns [of M req db sess] assms upsert_distinct [of turn_pk "turns db"]
    by (auto simp: unique_keys_def)
  show ?thesis using g t by (simp add: unique_keys_def)
qed

lemma post_live_games:
  assumes "unique_keys db"
  shows "length (live_games (fst (snd (post M req db sess))) q) \<le> length (live_games db q)"
proof -
  have d: "distinct (map game_pk (games db))" using assms by (simp add: unique_keys_def)
  consider (same) "games (fst (snd (post M req db sess))) = games db"
    | (saved) gid p g g' where "Game_get db gid p = Some g" "advanced g g'"
        "games (fst (snd (post M req db sess))) = upsert game_pk g' (games db)"
    using post_games [of M req db sess] by blast
  then show ?thesis
  proof cases
    case same
    then show ?thesis by (simp add: live_games_def)
  next
    case saved
    note found = Game_get_Some [OF saved(1)]
    have pk: "game_pk g' = game_pk g" and pl: "player g' = player g"
      using saved(2) by (simp_all add: advanced_def)
    have imp: "(player g' = q \<and> active g' \<and> \<not> finished g')
                 \<longrightarrow> (player g = q \<and> active g \<and> \<not> finished g)"
      using found pl by simp
    show ?thesis
      unfolding live_games_def saved(3)
      using upsert_filter_le [of game_pk "games db" g g'
          "\<lambda>h. player h = q \<and> active h \<and> \<not> finished h", OF d _ pk imp] found
      by simp
  qed
qed

lemma fold_max_ge: "a \<le> fold max ks (a::int)"
proof (induction ks arbitrary: a)
  case Nil
  then show ?case by simp
next
  case (Cons k ks)
  have "max k a \<le> fold max ks (max k a)" by (rule Cons.IH)
  then show ?case by simp
qed

lemma fold_max_mem: "k \<in> set ks \<Longrightarrow> k \<le> fold max ks (a::int)"
proof (induction ks arbitrary: a)
  case Nil
  then show ?case by simp
next
  case (Cons x xs)
  show ?case
  proof (cases "k = x")
    case True
    have "max x a \<le> fold max xs (max x a)" by (rule fold_max_ge)
    then show ?thesis using True by simp
  next
    case False
    then have "k \<in> set xs" using Cons.prems by simp
    then show ?thesis using Cons.IH by simp
  qed
qed

lemma next_pk_fresh: "next_pk gs \<notin> set (map game_pk gs)"
proof
  assume "next_pk gs \<in> set (map game_pk gs)"
  then have "next_pk gs \<le> fold max (map game_pk gs) 0"
    by (rule fold_max_mem)
  then show False by (simp add: next_pk_def)
qed

text \<open>The database that the start endpoint leaves.\<close>

lemma start_db:
  "case choice (USER_EMAILS E) (pick req) of
     Inl e \<Rightarrow> fst (snd (start E req db sess)) = db
   | Inr p \<Rightarrow>
       (\<exists>g. games (fst (snd (start E req db sess)))
               = map (\<lambda>h. if player h = p \<and> active h then h\<lparr>active := False\<rparr> else h) (games db)
                 @ [g]
           \<and> player g = p \<and> active g \<and> \<not> finished g \<and> game_pk g = next_pk (games db)
           \<and> turns (fst (snd (start E req db sess))) = turns db)"
proof (cases "choice (USER_EMAILS E) (pick req)")
  case (Inl e)
  then show ?thesis by (simp add: start_def)
next
  case (Inr p)
  obtain g db2 where c: "Game_create p (uuid_seed req)
      (generate_play_field E 2 3 (uuid_seed req))
      (start_now req) (stop_active_games_for_player p db) = (g, db2)"
    by (cases "Game_create p (uuid_seed req)
      (generate_play_field E 2 3 (uuid_seed req))
      (start_now req) (stop_active_games_for_player p db)") auto
  note gs = Game_create_stop [OF c]
  have "fst (snd (start E req db sess)) = db2"
    unfolding start_unfold [OF Inr c] by (simp split: sum.splits prod.splits)
  then have "games (fst (snd (start E req db sess)))
               = map (\<lambda>h. if player h = p \<and> active h then h\<lparr>active := False\<rparr> else h) (games db)
                 @ [g]
           \<and> player g = p \<and> active g \<and> \<not> finished g \<and> game_pk g = next_pk (games db)
           \<and> turns (fst (snd (start E req db sess))) = turns db"
    using gs by simp
  then show ?thesis unfolding Inr sum.case by (rule exI [where x = g])
qed

lemma live_games_stopped:
  assumes "games db' = map (\<lambda>h. if player h = p \<and> active h then h\<lparr>active := False\<rparr> else h) (games db) @ [g]"
    and "player g = p" and "active g" and "\<not> finished g"
  shows "live_games db' q = (if q = p then [g] else live_games db q)"
proof -
  define F :: "game \<Rightarrow> game" where
    "F = (\<lambda>h. if player h = p \<and> active h then h\<lparr>active := False\<rparr> else h)"
  have 1: "filter (\<lambda>h. player h = q \<and> active h \<and> \<not> finished h) (map F xs)
         = (if q = p then [] else filter (\<lambda>h. player h = q \<and> active h \<and> \<not> finished h) xs)" for xs
    by (induction xs) (auto simp: F_def)
  show ?thesis
    using assms(2,3,4) by (auto simp: live_games_def assms(1) 1 [unfolded F_def])
qed

lemma start_one_live_game:
  assumes "one_live_game db"
  shows "one_live_game (fst (snd (start E req db sess)))"
proof (cases "choice (USER_EMAILS E) (pick req)")
  case (Inl e)
  then show ?thesis using start_db [of E req db sess] assms by simp
next
  case (Inr p)
  then obtain g where g: "games (fst (snd (start E req db sess)))
               = map (\<lambda>h. if player h = p \<and> active h then h\<lparr>active := False\<rparr> else h) (games db)
                 @ [g]" "player g = p" "active g" "\<not> finished g"
    using start_db [of E req db sess] by auto
  show ?thesis
    unfolding one_live_game_iff live_games_stopped [OF g]
    using assms [unfolded one_live_game_iff] by simp
qed

lemma start_unique_keys:
  assumes "unique_keys db"
  shows "unique_keys (fst (snd (start E req db sess)))"
proof (cases "choice (USER_EMAILS E) (pick req)")
  case (Inl e)
  then show ?thesis using start_db [of E req db sess] assms by simp
next
  case (Inr p)
  then obtain g where g: "games (fst (snd (start E req db sess)))
               = map (\<lambda>h. if player h = p \<and> active h then h\<lparr>active := False\<rparr> else h) (games db)
                 @ [g]" "game_pk g = next_pk (games db)"
    "turns (fst (snd (start E req db sess))) = turns db"
    using start_db [of E req db sess] by auto
  have k: "map game_pk (games (fst (snd (start E req db sess))))
             = map game_pk (games db) @ [next_pk (games db)]"
    using stop_keeps_keys [of p db] by (simp add: g(1,2) stop_active_games_for_player_def)
  show ?thesis
    using assms next_pk_fresh [of "games db"] by (simp add: unique_keys_def k g(3))
qed


text \<open>
  Claim C9. No player has more than one active, unfinished game: the invariant holds on the
  empty database, the start endpoint keeps it (it leaves the selected player exactly one
  live game, the new one, having deactivated the others), and with unique keys, which both
  endpoints keep, the play endpoint keeps it; hence it holds after any sequence of requests
  to the two endpoints.
\<close>

theorem one_live_game_invariant:
  "(one_live_game db \<longrightarrow> one_live_game (fst (snd (start E sreq db sess))))
   \<and> (unique_keys db \<and> one_live_game db \<longrightarrow> one_live_game (fst (snd (post M req db sess'))))
   \<and> (unique_keys db \<longrightarrow>
        unique_keys (fst (snd (start E sreq db sess)))
        \<and> unique_keys (fst (snd (post M req db sess'))))
   \<and> (\<forall>p. choice (USER_EMAILS E) (pick sreq) = Inr p \<longrightarrow>
        length (live_games (fst (snd (start E sreq db sess))) p) = 1)
   \<and> (unique_keys db \<and> one_live_game db \<longrightarrow>
        unique_keys (run evs db) \<and> one_live_game (run evs db))
   \<and> unique_keys empty_db \<and> one_live_game empty_db"
proof -
  have 1: "one_live_game db \<longrightarrow> one_live_game (fst (snd (start E sreq db sess)))" for db E sreq sess
    using start_one_live_game by blast
  have 2: "unique_keys db \<and> one_live_game db \<longrightarrow> one_live_game (fst (snd (post M req db sess')))"
    for db M req sess'
  proof
    assume a: "unique_keys db \<and> one_live_game db"
    have "length (live_games (fst (snd (post M req db sess'))) q) \<le> 1" for q
      using post_live_games [of db M req sess' q] a [unfolded one_live_game_iff]
      by (meson order_trans)
    then show "one_live_game (fst (snd (post M req db sess')))"
      by (simp add: one_live_game_iff)
  qed
  have 3: "unique_keys db \<longrightarrow>
        unique_keys (fst (snd (start E sreq db sess)))
        \<and> unique_keys (fst (snd (post M req db sess')))" for db E sreq sess M req sess'
    using start_unique_keys post_unique_keys by blast
  have 4: "\<forall>p. choice (USER_EMAILS E) (pick sreq) = Inr p \<longrightarrow>
        length (live_games (fst (snd (start E sreq db sess))) p) = 1"
  proof (intro allI impI)
    fix p
    assume "choice (USER_EMAILS E) (pick sreq) = Inr p"
    then obtain g where g: "games (fst (snd (start E sreq db sess)))
               = map (\<lambda>h. if player h = p \<and> active h then h\<lparr>active := False\<rparr> else h) (games db)
                 @ [g]" "player g = p" "active g" "\<not> finished g"
      using start_db [of E sreq db sess] by auto
    show "length (live_games (fst (snd (start E sreq db sess))) p) = 1"
      by (simp add: live_games_stopped [OF g])
  qed
  have 5: "unique_keys db \<and> one_live_game db \<longrightarrow>
        unique_keys (run evs db) \<and> one_live_game (run evs db)"
  proof (induction evs arbitrary: db)
    case Nil
    then show ?case by simp
  next
    case (Cons ev evs)
    show ?case
    proof (cases ev)
      case (StartRequest E r s)
      then show ?thesis using Cons.IH [of "fst (snd (start E r db s))"] 1 3 by simp
    next
      case (PlayRequest M r s)
      then show ?thesis using Cons.IH [of "fst (snd (post M r db s))"] 2 3 by simp
    qed
  qed
  have 6: "unique_keys empty_db \<and> one_live_game empty_db"
    by (simp add: unique_keys_def one_live_game_def empty_db_def)
  show ?thesis using 1 2 3 4 5 6 by blast
qed

theorem one_live_game_invariant_witness:
  "unique_keys ex_db \<and> one_live_game ex_db
   \<and> choice (USER_EMAILS ex_env) (pick ex_start) = Inr ''ann''
   \<and> one_live_game (fst (snd (start ex_env ex_start ex_db no_session)))
   \<and> length (live_games (fst (snd (start ex_env ex_start ex_db no_session))) ''ann'') = 1
   \<and> one_live_game (fst (snd (post ex_M (click 0 0 10) ex_db ex_sess)))
   \<and> one_live_game
        (run [StartRequest ex_env ex_start no_session, PlayRequest ex_M (click 0 0 10) ex_sess]
           ex_db)"
proof -
  have u: "unique_keys ex_db" and o: "one_live_game ex_db"
    by (simp_all add: unique_keys_def one_live_game_def live_games_def ex_defs)
  have c: "choice (USER_EMAILS ex_env) (pick ex_start) = Inr ''ann''"
    by (simp add: choice_def ex_env_def ex_start_def)
  note t = one_live_game_invariant
    [of ex_db ex_env ex_start no_session ex_M "click 0 0 10" ex_sess
       "[StartRequest ex_env ex_start no_session, PlayRequest ex_M (click 0 0 10) ex_sess]"]
  show ?thesis using t u o c by blast
qed

end
